theory Spec2Isabelle
  imports Main "HOL-Library.Multiset"
begin

text \<open>
  A model of tdag, a library that runs Go tests in the order of a dependency graph:
  the shared key/value store, the graph with its node and edge registration and the
  check made on every new edge, the dependency closure of a target, and the two runs
  (\<^verbatim>\<open>RunTests\<close> over the whole graph, \<^verbatim>\<open>RunTo\<close> over the closure of a target). The
  definitions follow \<^verbatim>\<open>TDag\<close> and \<^verbatim>\<open>TStore\<close> of package tdag, and \<^verbatim>\<open>Store\<close> of
  package dag; the properties follow the definitions.
\<close>

section \<open>Errors\<close>

text \<open>
  The library reports failures as formatted error values (\<^verbatim>\<open>fmt.Errorf\<close>) or through
  \<^verbatim>\<open>t.Fatalf\<close>. Each format string becomes one constructor carrying the formatted
  arguments:
  \<^item> \<^verbatim>\<open>"node %s does not exist"\<close> (AddEdge) and \<^verbatim>\<open>"Node %s does not exist"\<close> (RunTo);
  \<^item> \<^verbatim>\<open>"adding edge from %s to %s would create a cycle"\<close>;
  \<^item> \<^verbatim>\<open>"key %s not found"\<close>;
  \<^item> \<^verbatim>\<open>"Dependency cycle detected. Remaining nodes: %v"\<close>. RunTo collects the remaining
    identifiers by ranging over a Go map, whose order is unspecified, so the
    constructor carries them as a set (for RunTests, the set of the list it collects).
\<close>

datatype error =
    UnknownNode string
  | CycleRejected string string
  | KeyNotFound string
  | DependencyCycle "string set"

section \<open>The shared store\<close>

text \<open>
  \<^verbatim>\<open>TStore\<close> (package tdag) is a \<^verbatim>\<open>map[string]interface{}\<close> behind a mutex. Every
  method holds the mutex for its whole body, so a method is one atomic step and the
  model is the sequential map. The stores considered are those made by \<^verbatim>\<open>NewStore\<close>,
  whose map is allocated.
\<close>

record 'v TStore =
  items :: "string \<rightharpoonup> 'v"

definition NewStore :: "'v TStore" where
  "NewStore = \<lparr>items = Map.empty\<rparr>"

definition Set :: "string \<Rightarrow> 'v \<Rightarrow> 'v TStore \<Rightarrow> 'v TStore" where
  "Set key val s = s\<lparr>items := (items s)(key \<mapsto> val)\<rparr>"

definition Get :: "string \<Rightarrow> 'v TStore \<Rightarrow> error + 'v" where
  "Get key s = (case items s key of None \<Rightarrow> Inl (KeyNotFound key) | Some val \<Rightarrow> Inr val)"

text \<open>
  \<^verbatim>\<open>Store\<close> (package dag, the generic implementation) has no mutex and its
  \<^verbatim>\<open>Get\<close> has a single result: \<^verbatim>\<open>return s.items[key]\<close>, which is the zero value of
  \<^verbatim>\<open>interface{}\<close>, \<^verbatim>\<open>nil\<close>, for a missing key. An \<^verbatim>\<open>interface{}\<close> value is modelled
  as \<open>'a option\<close> with \<open>None\<close> for \<^verbatim>\<open>nil\<close>.
\<close>

type_synonym 'a iface = "'a option"

record 'a Store =
  dag_items :: "string \<rightharpoonup> 'a iface"

definition dag_NewStore :: "'a Store" where
  "dag_NewStore = \<lparr>dag_items = Map.empty\<rparr>"

definition dag_Set :: "string \<Rightarrow> 'a iface \<Rightarrow> 'a Store \<Rightarrow> 'a Store" where
  "dag_Set key val s = s\<lparr>dag_items := (dag_items s)(key \<mapsto> val)\<rparr>"

definition dag_Get :: "string \<Rightarrow> 'a Store \<Rightarrow> 'a iface" where
  "dag_Get key s = (case dag_items s key of None \<Rightarrow> None | Some val \<Rightarrow> val)"

text \<open>A sequence of \<^verbatim>\<open>Set\<close> calls, in program order.\<close>

definition Set_all :: "(string \<times> 'v) list \<Rightarrow> 'v TStore \<Rightarrow> 'v TStore" where
  "Set_all writes s = fold (\<lambda>(key, val). Set key val) writes s"

definition dag_Set_all :: "(string \<times> 'a iface) list \<Rightarrow> 'a Store \<Rightarrow> 'a Store" where
  "dag_Set_all writes s = fold (\<lambda>(key, val). dag_Set key val) writes s"

text \<open>The value of the last write to \<open>key\<close> in a sequence of writes, if there is one.\<close>

fun last_write :: "string \<Rightarrow> (string \<times> 'v) list \<Rightarrow> 'v option" where
  "last_write key [] = None"
| "last_write key ((k, val) # writes) =
     (case last_write key writes of
        Some later \<Rightarrow> Some later
      | None \<Rightarrow> if k = key then Some val else None)"

section \<open>The graph\<close>

text \<open>
  A \<^verbatim>\<open>*TNode\<close> is a pointer to a node that is never modified after \<^verbatim>\<open>AddNode\<close>
  allocated it. The model keeps the pointee together with its address \<open>ref\<close>, so
  that two nodes registered under one identifier remain two nodes. \<^verbatim>\<open>AddNode\<close>
  allocates at the next free address of the graph, the number of nodes registered so
  far. A callback \<^verbatim>\<open>func(ctx *TestContext)\<close> reads and writes the shared context; it
  is a function from the context before to the context after.
\<close>

record 'c TNode =
  ref :: nat
  ID :: string
  Fn :: "'c \<Rightarrow> 'c"

record 'c TEdge =
  Left :: "'c TNode"
  Right :: "'c TNode"

record 'c TDag =
  Nodes :: "'c TNode list"
  Edges :: "'c TEdge list"
  Ctx :: 'c
  SetupFns :: "('c \<Rightarrow> 'c) list"
  TearDownFns :: "('c \<Rightarrow> 'c) list"
  BeforeEachFns :: "('c \<Rightarrow> 'c) list"
  AfterEachFns :: "('c \<Rightarrow> 'c) list"

definition NewTDag :: "'c \<Rightarrow> 'c TDag" where
  "NewTDag c = \<lparr>Nodes = [], Edges = [], Ctx = c, SetupFns = [], TearDownFns = [],
     BeforeEachFns = [], AfterEachFns = []\<rparr>"

definition AddNode :: "string \<Rightarrow> ('c \<Rightarrow> 'c) \<Rightarrow> 'c TDag \<Rightarrow> 'c TNode \<times> 'c TDag" where
  "AddNode ident fn d =
     (let node = \<lparr>ref = length (Nodes d), ID = ident, Fn = fn\<rparr>
      in (node, d\<lparr>Nodes := Nodes d @ [node]\<rparr>))"

definition Setup :: "('c \<Rightarrow> 'c) \<Rightarrow> 'c TDag \<Rightarrow> 'c TDag" where
  "Setup fn d = d\<lparr>SetupFns := SetupFns d @ [fn]\<rparr>"

definition TearDown :: "('c \<Rightarrow> 'c) \<Rightarrow> 'c TDag \<Rightarrow> 'c TDag" where
  "TearDown fn d = d\<lparr>TearDownFns := TearDownFns d @ [fn]\<rparr>"

definition BeforeEach :: "('c \<Rightarrow> 'c) \<Rightarrow> 'c TDag \<Rightarrow> 'c TDag" where
  "BeforeEach fn d = d\<lparr>BeforeEachFns := BeforeEachFns d @ [fn]\<rparr>"

definition AfterEach :: "('c \<Rightarrow> 'c) \<Rightarrow> 'c TDag \<Rightarrow> 'c TDag" where
  "AfterEach fn d = d\<lparr>AfterEachFns := AfterEachFns d @ [fn]\<rparr>"

text \<open>\<^verbatim>\<open>findNodeByID\<close> returns the first node of \<^verbatim>\<open>d.Nodes\<close> with the identifier, or nil.\<close>

fun findNode :: "'c TNode list \<Rightarrow> string \<Rightarrow> 'c TNode option" where
  "findNode [] ident = None"
| "findNode (node # rest) ident =
     (if ID node = ident then Some node else findNode rest ident)"

definition findNodeByID :: "'c TDag \<Rightarrow> string \<Rightarrow> 'c TNode option" where
  "findNodeByID d ident = findNode (Nodes d) ident"

subsection \<open>The cycle check\<close>

text \<open>
  \<^verbatim>\<open>detectCycle(start, target, visited)\<close> walks \<^verbatim>\<open>d.Edges\<close> depth first from
  \<open>start\<close>. The \<^verbatim>\<open>visited\<close> map is shared by all the calls of one check: a call marks
  its node, and unmarks it before it returns false. \<open>detectCycle_range\<close> is the
  \<^verbatim>\<open>for _, edge := range d.Edges\<close> loop of one call together with the unmarking that
  follows it; its second argument is the part of \<^verbatim>\<open>d.Edges\<close> still to be visited. A
  \<^verbatim>\<open>map[string]bool\<close> that is only read with \<^verbatim>\<open>visited[k]\<close> is the set of keys mapped
  to true. Both functions return the result with the map as the call leaves it.
  The nil test of the source never fires: \<^verbatim>\<open>AddEdge\<close> passes nodes it has found, and
  the edges hold such nodes.
\<close>

function (domintros)
  detectCycle :: "'c TEdge list \<Rightarrow> 'c TNode \<Rightarrow> 'c TNode \<Rightarrow> string set \<Rightarrow> bool \<times> string set"
and
  detectCycle_range :: "'c TEdge list \<Rightarrow> 'c TEdge list \<Rightarrow> 'c TNode \<Rightarrow> 'c TNode \<Rightarrow> string set
    \<Rightarrow> bool \<times> string set"
where
  "detectCycle es start target visited =
     (if ID start = ID target then (True, visited)
      else detectCycle_range es es start target (insert (ID start) visited))"
| "detectCycle_range es [] start target visited = (False, visited - {ID start})"
| "detectCycle_range es (edge # rest) start target visited =
     (if ID (Left edge) = ID start \<and> ID (Right edge) \<notin> visited then
        (case detectCycle es (Right edge) target visited of
           (True, visited') \<Rightarrow> (True, visited')
         | (False, visited') \<Rightarrow> detectCycle_range es rest start target visited')
      else detectCycle_range es rest start target visited)"
  by pat_completeness auto

text \<open>
  A call that returns false leaves the map as it found it. This is what makes the
  recursion terminate: the marked nodes only grow along a path.
\<close>

lemma detectCycle_restores_visited:
  "detectCycle_detectCycle_range_dom (Inl (es, start, target, visited)) \<Longrightarrow>
     ID start \<notin> visited \<Longrightarrow> detectCycle es start target visited = (False, v') \<Longrightarrow>
     v' = visited"
  "detectCycle_detectCycle_range_dom (Inr (es, rest, start, target, visited)) \<Longrightarrow>
     detectCycle_range es rest start target visited = (False, v') \<Longrightarrow>
     v' = visited - {ID start}"
proof (induction es start target visited and es rest start target visited
    arbitrary: v' and v' rule: detectCycle_detectCycle_range.pinduct)
  case (1 es start target visited)
  then show ?case
    by (auto simp: detectCycle.psimps split: if_splits)
next
  case (2 es start target visited)
  then show ?case
    by (simp add: detectCycle_range.psimps)
next
  case (3 es edge rest start target visited)
  show ?case
  proof (cases "ID (Left edge) = ID start \<and> ID (Right edge) \<notin> visited")
    case True
    obtain b y where r: "detectCycle es (Right edge) target visited = (b, y)"
      by (cases "detectCycle es (Right edge) target visited")
    with 3(1,5) True have b: "\<not> b"
      and rest: "detectCycle_range es rest start target y = (False, v')"
      by (auto simp: detectCycle_range.psimps split: if_splits bool.splits)
    from 3(2)[OF True] r b True have "y = visited" by simp
    moreover from 3(3)[OF True r[symmetric]] b rest have "v' = y - {ID start}" by simp
    ultimately show ?thesis by simp
  next
    case False
    with 3(1,5) have "detectCycle_range es rest start target visited = (False, v')"
      by (auto simp: detectCycle_range.psimps)
    with 3(4)[OF False] show ?thesis by simp
  qed
qed

definition right_ids :: "'c TEdge list \<Rightarrow> string set" where
  "right_ids es = (\<lambda>e. ID (Right e)) ` set es"

lemma finite_right_ids: "finite (right_ids es)"
  by (simp add: right_ids_def)

termination detectCycle
proof (relation "inv_image (less_than <*lex*> less_than)
    (\<lambda>x. case x of
        Inl (es, start, target, visited) \<Rightarrow>
          (card (right_ids es - insert (ID start) visited), Suc (length es))
      | Inr (es, rest, start, target, visited) \<Rightarrow>
          (card ((right_ids es \<union> right_ids rest) - visited), length rest))", goal_cases)
  case 1
  show ?case by (intro wf_inv_image wf_lex_prod wf_less_than)
next
  case (2 es start target visited)
  show ?case by simp
next
  case (3 es edge rest start target visited)
  then have "right_ids es - insert (ID (Right edge)) visited
      \<subset> (right_ids es \<union> right_ids (edge # rest)) - visited"
    by (auto simp: right_ids_def)
  then have "card (right_ids es - insert (ID (Right edge)) visited)
      < card ((right_ids es \<union> right_ids (edge # rest)) - visited)"
    by (intro psubset_card_mono) (simp_all add: finite_right_ids)
  then show ?case by simp
next
  case (4 es edge rest start target visited x ya)
  then have "ya = visited"
    using detectCycle_restores_visited(1)[of es "Right edge" target visited ya] by simp
  moreover have "card ((right_ids es \<union> right_ids rest) - visited)
      \<le> card ((right_ids es \<union> right_ids (edge # rest)) - visited)"
    by (intro card_mono) (auto simp: right_ids_def)
  ultimately show ?case by auto
next
  case (5 es edge rest start target visited)
  have "card ((right_ids es \<union> right_ids rest) - visited)
      \<le> card ((right_ids es \<union> right_ids (edge # rest)) - visited)"
    by (intro card_mono) (auto simp: right_ids_def)
  then show ?case by auto
qed

text \<open>\<^verbatim>\<open>createsCycle\<close> starts the walk with a fresh, empty map.\<close>

definition createsCycle :: "'c TDag \<Rightarrow> 'c TNode \<Rightarrow> 'c TNode \<Rightarrow> bool" where
  "createsCycle d fromNode toNode = fst (detectCycle (Edges d) fromNode toNode {})"

subsection \<open>Adding edges\<close>

text \<open>
  \<open>AddEdge_range\<close> is the loop of \<^verbatim>\<open>AddEdge\<close> over its targets. \<open>edges\<close> is the local
  slice of the edges made so far; an error returns nil in its place, and the graph as
  the loop has left it.
\<close>

fun AddEdge_range :: "'c TNode \<Rightarrow> string \<Rightarrow> string list \<Rightarrow> 'c TEdge list \<Rightarrow> 'c TDag
    \<Rightarrow> (error + 'c TEdge list) \<times> 'c TDag" where
  "AddEdge_range fromNode fromID [] edges d = (Inr edges, d)"
| "AddEdge_range fromNode fromID (targetID # rest) edges d =
     (case findNodeByID d targetID of
        None \<Rightarrow> (Inl (UnknownNode targetID), d)
      | Some targetNode \<Rightarrow>
          if createsCycle d fromNode targetNode then (Inl (CycleRejected fromID targetID), d)
          else let edge = \<lparr>Left = fromNode, Right = targetNode\<rparr>
               in AddEdge_range fromNode fromID rest (edges @ [edge])
                    (d\<lparr>Edges := Edges d @ [edge]\<rparr>))"

definition AddEdge :: "string \<Rightarrow> string list \<Rightarrow> 'c TDag \<Rightarrow> (error + 'c TEdge list) \<times> 'c TDag" where
  "AddEdge fromID toIDs d =
     (case findNodeByID d fromID of
        None \<Rightarrow> (Inl (UnknownNode fromID), d)
      | Some fromNode \<Rightarrow> AddEdge_range fromNode fromID toIDs [] d)"

text \<open>The edges of a graph as pairs of identifiers, and as a relation.\<close>

definition edge_ids :: "'c TDag \<Rightarrow> (string \<times> string) list" where
  "edge_ids d = map (\<lambda>e. (ID (Left e), ID (Right e))) (Edges d)"

definition edge_rel :: "'c TDag \<Rightarrow> (string \<times> string) set" where
  "edge_rel d = set (edge_ids d)"


text \<open>The graphs that the construction interface can produce.\<close>

inductive built :: "'c TDag \<Rightarrow> bool" where
  built_NewTDag: "built (NewTDag c)"
| built_AddNode: "built d \<Longrightarrow> built (snd (AddNode ident fn d))"
| built_AddEdge: "built d \<Longrightarrow> built (snd (AddEdge fromID toIDs d))"
| built_Setup: "built d \<Longrightarrow> built (Setup fn d)"
| built_TearDown: "built d \<Longrightarrow> built (TearDown fn d)"
| built_BeforeEach: "built d \<Longrightarrow> built (BeforeEach fn d)"
| built_AfterEach: "built d \<Longrightarrow> built (AfterEach fn d)"

section \<open>The dependency closure\<close>

text \<open>
  \<^verbatim>\<open>collectDependencies(nodeID, collected)\<close> marks \<open>nodeID\<close> in the shared map and
  recurses into the left end of every edge whose right end is \<open>nodeID\<close> and whose
  left end is not marked yet. \<open>collectDependencies_range\<close> is its loop over
  \<^verbatim>\<open>d.Edges\<close>. The functions return the map as the call leaves it.
\<close>

function (domintros)
  collectDependencies :: "'c TEdge list \<Rightarrow> string \<Rightarrow> string set \<Rightarrow> string set"
and
  collectDependencies_range :: "'c TEdge list \<Rightarrow> 'c TEdge list \<Rightarrow> string \<Rightarrow> string set
    \<Rightarrow> string set"
where
  "collectDependencies es nodeID collected =
     collectDependencies_range es es nodeID (insert nodeID collected)"
| "collectDependencies_range es [] nodeID collected = collected"
| "collectDependencies_range es (edge # rest) nodeID collected =
     (if ID (Right edge) = nodeID \<and> ID (Left edge) \<notin> collected
      then collectDependencies_range es rest nodeID
             (collectDependencies es (ID (Left edge)) collected)
      else collectDependencies_range es rest nodeID collected)"
  by pat_completeness auto

lemma collectDependencies_grows:
  "collectDependencies_collectDependencies_range_dom (Inl (es, nodeID, collected)) \<Longrightarrow>
     collected \<subseteq> collectDependencies es nodeID collected"
  "collectDependencies_collectDependencies_range_dom (Inr (es, rest, nodeID, collected)) \<Longrightarrow>
     collected \<subseteq> collectDependencies_range es rest nodeID collected"
proof (induction es nodeID collected and es rest nodeID collected
    rule: collectDependencies_collectDependencies_range.pinduct)
  case (1 es nodeID collected)
  then show ?case
    by (auto simp: collectDependencies.psimps)
next
  case (2 es nodeID collected)
  then show ?case
    by (simp add: collectDependencies_range.psimps)
next
  case (3 es edge rest nodeID collected)
  then show ?case
    by (auto simp: collectDependencies_range.psimps split: if_splits)
qed

definition left_ids :: "'c TEdge list \<Rightarrow> string set" where
  "left_ids es = (\<lambda>e. ID (Left e)) ` set es"

lemma finite_left_ids: "finite (left_ids es)"
  by (simp add: left_ids_def)

termination collectDependencies
proof (relation "inv_image (less_than <*lex*> less_than)
    (\<lambda>x. case x of
        Inl (es, nodeID, collected) \<Rightarrow>
          (card (left_ids es - insert nodeID collected), Suc (length es))
      | Inr (es, rest, nodeID, collected) \<Rightarrow>
          (card ((left_ids es \<union> left_ids rest) - collected), length rest))", goal_cases)
  case 1
  show ?case by (intro wf_inv_image wf_lex_prod wf_less_than)
next
  case (2 es nodeID collected)
  show ?case by simp
next
  case (3 es edge rest nodeID collected)
  then have "left_ids es - insert (ID (Left edge)) collected
      \<subset> (left_ids es \<union> left_ids (edge # rest)) - collected"
    by (auto simp: left_ids_def)
  then have "card (left_ids es - insert (ID (Left edge)) collected)
      < card ((left_ids es \<union> left_ids (edge # rest)) - collected)"
    by (intro psubset_card_mono) (simp_all add: finite_left_ids)
  then show ?case by simp
next
  case (4 es edge rest nodeID collected)
  then have "collected \<subseteq> collectDependencies es (ID (Left edge)) collected"
    using collectDependencies_grows(1) by blast
  then have "card ((left_ids es \<union> left_ids rest)
        - collectDependencies es (ID (Left edge)) collected)
      \<le> card ((left_ids es \<union> left_ids (edge # rest)) - collected)"
    by (intro card_mono) (auto simp: left_ids_def)
  then show ?case by auto
next
  case (5 es edge rest nodeID collected)
  have "card ((left_ids es \<union> left_ids rest) - collected)
      \<le> card ((left_ids es \<union> left_ids (edge # rest)) - collected)"
    by (intro card_mono) (auto simp: left_ids_def)
  then show ?case by auto
qed


section \<open>The scheduler\<close>

text \<open>
  A run keeps two maps, \<^verbatim>\<open>inDegree\<close> and \<^verbatim>\<open>completed\<close>, and calls the hooks and the
  node callbacks on the shared context \<^verbatim>\<open>d.Ctx\<close>. A \<^verbatim>\<open>map[string]int\<close> that is only
  read with \<^verbatim>\<open>inDegree[k]\<close> is a total function that is 0 off its keys; a counter
  changes by one per edge when the maps are filled and by one per edge and executed
  node afterwards, far inside Go's 64-bit \<^verbatim>\<open>int\<close>, so \<open>int\<close>
  stands for it. \<^verbatim>\<open>completed\<close> is the set of the keys mapped to true.

  The model records what a run does in a trace: one event for each call of a setup or
  teardown hook (with the position of the hook in its list), and one event for each
  wave, holding the nodes launched in it. The goroutines of a wave are joined by
  \<^verbatim>\<open>wg.Wait()\<close> before the next scan, so everything a wave does lies between the events
  before and after it. Within a wave the callbacks run concurrently; the model applies
  them to the context in launch order, which is one of the possible schedules. The
  bookkeeping of a wave (under \<^verbatim>\<open>completedMux\<close>) marks identifiers and decrements
  counters, and its result is the same in every schedule. A callback is taken to
  return; one that ends its goroutine (\<^verbatim>\<open>t.FailNow\<close>) is outside the model.

  The generic \<^verbatim>\<open>Dag\<close> of package dag has the same two loops and no hooks: its
  \<^verbatim>\<open>RunTests\<close> and \<^verbatim>\<open>RunTo\<close> are the runs below on a graph whose four hook lists are
  empty.
\<close>

datatype 'c event = SetupHook nat | Wave "'c TNode list" | TearDownHook nat

record 'c sched =
  inDegree :: "string \<Rightarrow> int"
  completed :: "string set"
  ctx :: 'c
  trace :: "'c event list"

text \<open>\<^verbatim>\<open>for _, fn := range fns { fn(d.Ctx) }\<close>, recorded (setup and teardown) or not.\<close>

fun runHooks :: "(nat \<Rightarrow> 'c event) \<Rightarrow> nat \<Rightarrow> ('c \<Rightarrow> 'c) list \<Rightarrow> 'c sched \<Rightarrow> 'c sched" where
  "runHooks mk i [] st = st"
| "runHooks mk i (fn # fns) st =
     runHooks mk (Suc i) fns (st\<lparr>ctx := fn (ctx st), trace := trace st @ [mk i]\<rparr>)"

fun callEach :: "('c \<Rightarrow> 'c) list \<Rightarrow> 'c \<Rightarrow> 'c" where
  "callEach [] c = c"
| "callEach (fn # fns) c = callEach fns (fn c)"

text \<open>
  The loop over \<^verbatim>\<open>d.Edges\<close> that fills \<^verbatim>\<open>inDegree\<close> and \<^verbatim>\<open>outEdges\<close>. \<open>required\<close>
  is the test on the two ends that RunTo makes; RunTests makes none.
\<close>

fun buildAdjacency :: "(string \<Rightarrow> bool) \<Rightarrow> 'c TEdge list
    \<Rightarrow> (string \<Rightarrow> int) \<times> (string \<Rightarrow> 'c TNode list)
    \<Rightarrow> (string \<Rightarrow> int) \<times> (string \<Rightarrow> 'c TNode list)" where
  "buildAdjacency required [] (inDeg, outEdges) = (inDeg, outEdges)"
| "buildAdjacency required (edge # rest) (inDeg, outEdges) =
     (if required (ID (Left edge)) \<and> required (ID (Right edge)) then
        buildAdjacency required rest
          (inDeg(ID (Right edge) := inDeg (ID (Right edge)) + 1),
           outEdges(ID (Left edge) := outEdges (ID (Left edge)) @ [Right edge]))
      else buildAdjacency required rest (inDeg, outEdges))"

text \<open>\<^verbatim>\<open>for _, dependent := range outEdges[n.ID] { inDegree[dependent.ID]-- }\<close>\<close>

fun decrementAll :: "'c TNode list \<Rightarrow> (string \<Rightarrow> int) \<Rightarrow> (string \<Rightarrow> int)" where
  "decrementAll [] inDeg = inDeg"
| "decrementAll (dependent # rest) inDeg =
     decrementAll rest (inDeg(ID dependent := inDeg (ID dependent) - 1))"

text \<open>The body of the goroutine of one node.\<close>

definition runNode :: "'c TDag \<Rightarrow> (string \<Rightarrow> 'c TNode list) \<Rightarrow> 'c TNode \<Rightarrow> 'c sched \<Rightarrow> 'c sched" where
  "runNode d outEdges n st =
     st\<lparr>ctx := callEach (AfterEachFns d) (Fn n (callEach (BeforeEachFns d) (ctx st))),
        completed := insert (ID n) (completed st),
        inDegree := decrementAll (outEdges (ID n)) (inDegree st)\<rparr>"

text \<open>One wave: every available node is launched, and the wave is joined.\<close>

definition runWave :: "'c TDag \<Rightarrow> (string \<Rightarrow> 'c TNode list) \<Rightarrow> 'c TNode list \<Rightarrow> 'c sched
    \<Rightarrow> 'c sched" where
  "runWave d outEdges available st =
     (let st' = fold (runNode d outEdges) available st
      in st'\<lparr>trace := trace st' @ [Wave available]\<rparr>)"

definition availableNodes :: "'c TDag \<Rightarrow> (string \<Rightarrow> bool) \<Rightarrow> 'c sched \<Rightarrow> 'c TNode list" where
  "availableNodes d required st =
     filter (\<lambda>node. required (ID node) \<and> ID node \<notin> completed st \<and> inDegree st (ID node) = 0)
       (Nodes d)"

lemma runNode_completed [simp]:
  "completed (runNode d outEdges n st) = insert (ID n) (completed st)"
  by (simp add: runNode_def)

lemma fold_runNode_completed:
  "completed (fold (runNode d outEdges) ns st) = completed st \<union> ID ` set ns"
  by (induction ns arbitrary: st) auto

lemma runWave_completed [simp]:
  "completed (runWave d outEdges ns st) = completed st \<union> ID ` set ns"
  by (simp add: runWave_def Let_def fold_runNode_completed)

text \<open>
  The \<^verbatim>\<open>for { ... }\<close> loop, which RunTests and RunTo both contain. They differ in the
  test \<open>required\<close> of the scan and in how the remaining identifiers are collected
  (\<open>remainingOf\<close>, from \<^verbatim>\<open>d.Nodes\<close> or from the keys of \<^verbatim>\<open>requiredNodes\<close>). The loop
  ends with \<^verbatim>\<open>t.Fatalf\<close> (an error) or with \<^verbatim>\<open>break\<close>.
\<close>

function runWaves :: "'c TDag \<Rightarrow> (string \<Rightarrow> bool) \<Rightarrow> (string set \<Rightarrow> string set)
    \<Rightarrow> (string \<Rightarrow> 'c TNode list) \<Rightarrow> 'c sched \<Rightarrow> error option \<times> 'c sched" where
  "runWaves d required remainingOf outEdges st =
     (let available = availableNodes d required st in
      if available = [] then
        (let remaining = remainingOf (completed st) in
         if remaining \<noteq> {} then (Some (DependencyCycle remaining), st) else (None, st))
      else runWaves d required remainingOf outEdges (runWave d outEdges available st))"
  by pat_completeness auto

termination
proof (relation "measure (\<lambda>(d, required, remainingOf, outEdges, st).
    card (ID ` set (Nodes d) - completed st))", goal_cases)
  case 1
  show ?case by simp
next
  case (2 d required remainingOf outEdges st available)
  then obtain n where n: "n \<in> set (availableNodes d required st)"
    by (cases "availableNodes d required st") auto
  then have "ID n \<in> ID ` set (Nodes d) - completed st"
    by (auto simp: availableNodes_def)
  then have "ID ` set (Nodes d) - (completed st \<union> ID ` set (availableNodes d required st))
      \<subset> ID ` set (Nodes d) - completed st"
    using n by blast
  then have "card (ID ` set (Nodes d) - (completed st \<union> ID ` set (availableNodes d required st)))
      < card (ID ` set (Nodes d) - completed st)"
    by (intro psubset_card_mono) simp_all
  with 2 show ?case by simp
qed

declare runWaves.simps [simp del]

text \<open>
  \<^verbatim>\<open>RunTests\<close>. The first loop sets \<^verbatim>\<open>inDegree[node.ID] = 0\<close> for every node. There is
  no loop over \<^verbatim>\<open>d.SetupFns\<close> in this function. \<^verbatim>\<open>t.Fatalf\<close> ends the function, so a
  run that reports a cycle does not reach the teardown loop.
\<close>

fun zeroAll :: "'c TNode list \<Rightarrow> (string \<Rightarrow> int) \<Rightarrow> (string \<Rightarrow> int)" where
  "zeroAll [] inDeg = inDeg"
| "zeroAll (node # rest) inDeg = zeroAll rest (inDeg(ID node := 0))"

definition RunTests :: "'c TDag \<Rightarrow> error option \<times> 'c sched" where
  "RunTests d =
     (let inDeg0 = zeroAll (Nodes d) (\<lambda>_. 0);
          (inDeg, outEdges) = buildAdjacency (\<lambda>_. True) (Edges d) (inDeg0, \<lambda>_. []);
          st0 = \<lparr>inDegree = inDeg, completed = {}, ctx = Ctx d, trace = []\<rparr>
      in case runWaves d (\<lambda>_. True)
                (\<lambda>finished. set (filter (\<lambda>i. i \<notin> finished) (map ID (Nodes d))))
                outEdges st0 of
           (Some err, st) \<Rightarrow> (Some err, st)
         | (None, st) \<Rightarrow> (None, runHooks TearDownHook 0 (TearDownFns d) st))"

text \<open>
  \<^verbatim>\<open>RunTo\<close>. An unknown target is fatal before anything runs. The counters are set to
  0 for the required nodes only, and only the edges between required nodes are
  counted. The setup hooks run before the loop. The remaining identifiers are the keys
  of \<^verbatim>\<open>requiredNodes\<close> that are not completed.
\<close>

definition RunTo :: "string \<Rightarrow> 'c TDag \<Rightarrow> error option \<times> 'c sched" where
  "RunTo ident d =
     (case findNodeByID d ident of
        None \<Rightarrow>
          (Some (UnknownNode ident),
           \<lparr>inDegree = \<lambda>_. 0, completed = {}, ctx = Ctx d, trace = []\<rparr>)
      | Some targetNode \<Rightarrow>
          (let requiredNodes = collectDependencies (Edges d) ident {};
               inDeg0 = zeroAll (filter (\<lambda>node. ID node \<in> requiredNodes) (Nodes d)) (\<lambda>_. 0);
               (inDeg, outEdges) =
                 buildAdjacency (\<lambda>i. i \<in> requiredNodes) (Edges d) (inDeg0, \<lambda>_. []);
               st0 = \<lparr>inDegree = inDeg, completed = {}, ctx = Ctx d, trace = []\<rparr>;
               st1 = runHooks SetupHook 0 (SetupFns d) st0
           in case runWaves d (\<lambda>i. i \<in> requiredNodes)
                     (\<lambda>finished. requiredNodes - finished) outEdges st1 of
                (Some err, st) \<Rightarrow> (Some err, st)
              | (None, st) \<Rightarrow> (None, runHooks TearDownHook 0 (TearDownFns d) st)))"

text \<open>What a trace says: the waves in order, and the nodes executed.\<close>

fun waves :: "'c event list \<Rightarrow> 'c TNode list list" where
  "waves [] = []"
| "waves (Wave ns # evs) = ns # waves evs"
| "waves (ev # evs) = waves evs"

definition executed :: "'c event list \<Rightarrow> 'c TNode list" where
  "executed evs = concat (waves evs)"

text \<open>
  The order that the edges ask for, over a list of waves: each node of a wave has the
  left end of every edge into it in \<open>finished\<close>, the identifiers of the waves before
  it.
\<close>

fun deps_first :: "'c TEdge list \<Rightarrow> string set \<Rightarrow> 'c TNode list list \<Rightarrow> bool" where
  "deps_first es finished [] = True"
| "deps_first es finished (w # ws) =
     ((\<forall>n \<in> set w. \<forall>e \<in> set es. ID (Right e) = ID n \<longrightarrow> ID (Left e) \<in> finished)
      \<and> deps_first es (finished \<union> ID ` set w) ws)"


section \<open>Invariants of the construction\<close>

text \<open>
  The addresses of the nodes follow the order of registration, and the two ends of an
  edge are the nodes that a lookup of their identifiers returns.
\<close>

definition refs_in_order :: "'c TDag \<Rightarrow> bool" where
  "refs_in_order d = (map ref (Nodes d) = [0..<length (Nodes d)])"

definition ends_found :: "'c TNode list \<Rightarrow> 'c TEdge \<Rightarrow> bool" where
  "ends_found ns e =
     (findNode ns (ID (Left e)) = Some (Left e) \<and> findNode ns (ID (Right e)) = Some (Right e))"

section \<open>Notions for the scheduler\<close>

text \<open>The edges as a relation on identifiers: left before right.\<close>

definition rel_of :: "'c TEdge list \<Rightarrow> (string \<times> string) set" where
  "rel_of es = (\<lambda>e. (ID (Left e), ID (Right e))) ` set es"

text \<open>The edges that do not enter a marked node.\<close>

definition rel_avoiding :: "'c TEdge list \<Rightarrow> string set \<Rightarrow> (string \<times> string) set" where
  "rel_avoiding es visited = {(a, b) \<in> rel_of es. b \<notin> visited}"

text \<open>
  What the two maps of a run hold: \<open>outOf\<close> is the adjacency list that
  \<open>buildAdjacency\<close> makes, and \<open>pending\<close> counts the counted edges into a node whose
  left end has not completed.
\<close>

definition outOf :: "(string \<Rightarrow> bool) \<Rightarrow> 'c TEdge list \<Rightarrow> string \<Rightarrow> 'c TNode list" where
  "outOf required es l =
     map Right (filter (\<lambda>e. required (ID (Left e)) \<and> required (ID (Right e)) \<and> ID (Left e) = l) es)"

definition pending :: "(string \<Rightarrow> bool) \<Rightarrow> 'c TEdge list \<Rightarrow> string set \<Rightarrow> string \<Rightarrow> nat" where
  "pending required es finished n =
     length (filter (\<lambda>e. required (ID (Left e)) \<and> required (ID (Right e)) \<and>
        ID (Right e) = n \<and> ID (Left e) \<notin> finished) es)"

text \<open>
  The invariant of the loop: every counter is the number of pending edges into its
  node; only eligible, registered identifiers are completed; the nodes executed so far
  are the nodes whose identifier is completed; and the waves so far respect the edges.
\<close>

definition counts_pending :: "(string \<Rightarrow> bool) \<Rightarrow> 'c TEdge list \<Rightarrow> 'c sched \<Rightarrow> bool" where
  "counts_pending required es st =
     (\<forall>n. inDegree st n = int (pending required es (completed st) n))"

definition sched_inv :: "'c TDag \<Rightarrow> (string \<Rightarrow> bool) \<Rightarrow> 'c sched \<Rightarrow> bool" where
  "sched_inv d required st =
     (counts_pending required (Edges d) st \<and>
      completed st \<subseteq> {i. required i} \<inter> ID ` set (Nodes d) \<and>
      mset (executed (trace st)) = mset (filter (\<lambda>n. ID n \<in> completed st) (Nodes d)) \<and>
      deps_first (Edges d) {} (waves (trace st)))"

section \<open>Example graphs\<close>

text \<open>
  Three nodes A, B, C with the edges A\<rightarrow>B and B\<rightarrow>C, built through the interface; the
  callbacks do nothing.
\<close>

definition three_nodes :: "unit TDag" where
  "three_nodes =
     snd (AddNode ''C'' id (snd (AddNode ''B'' id (snd (AddNode ''A'' id (NewTDag ()))))))"

definition chain_abc :: "unit TDag" where
  "chain_abc = snd (AddEdge ''B'' [''C''] (snd (AddEdge ''A'' [''B''] three_nodes)))"

text \<open>The identifier A registered twice, then B, and the edge A\<rightarrow>B.\<close>

definition twins :: "unit TDag" where
  "twins =
     snd (AddEdge ''A'' [''B'']
       (snd (AddNode ''B'' id (snd (AddNode ''A'' id (snd (AddNode ''A'' id (NewTDag ()))))))))"

text \<open>
  The shape of the repository's example test: a context with the store and the test
  log, a setup hook that stores the key email, a node that reads it and logs the
  outcome, and a teardown hook that logs.
\<close>

record TestContext =
  Store :: "string TStore"
  T :: "string list"

definition setup_email :: "TestContext \<Rightarrow> TestContext" where
  "setup_email c = c\<lparr>Store := Set ''email'' ''test@example.com'' (Store c)\<rparr>"

definition login :: "TestContext \<Rightarrow> TestContext" where
  "login c =
     (case Get ''email'' (Store c) of
        Inl err \<Rightarrow> c\<lparr>T := T c @ [''assert.NoError failed'']\<rparr>
      | Inr email \<Rightarrow> c\<lparr>T := T c @ [''session.login: '' @ email]\<rparr>)"

definition log_teardown :: "TestContext \<Rightarrow> TestContext" where
  "log_teardown c = c\<lparr>T := T c @ [''tear down'']\<rparr>"

definition login_dag :: "TestContext TDag" where
  "login_dag =
     snd (AddNode ''session.login'' login
       (TearDown log_teardown (Setup setup_email (NewTDag \<lparr>Store = NewStore, T = []\<rparr>))))"

text \<open>
  Four nodes with the edges A\<rightarrow>B, B\<rightarrow>C and A\<rightarrow>D, and a ranking of the identifiers that
  decreases along every edge of the examples.
\<close>

definition fan_abcd :: "unit TDag" where
  "fan_abcd =
     snd (AddEdge ''A'' [''D''] (snd (AddEdge ''B'' [''C''] (snd (AddEdge ''A'' [''B'']
       (snd (AddNode ''D'' id three_nodes)))))))"

definition rank_abcd :: "string \<Rightarrow> nat" where
  "rank_abcd i = (if i = ''A'' then 2 else if i = ''B'' then 1 else 0)"

lemmas build_simps = three_nodes_def chain_abc_def twins_def login_dag_def NewTDag_def
  AddNode_def AddEdge_def Setup_def TearDown_def findNodeByID_def createsCycle_def
  edge_ids_def Let_def

lemmas run_simps = RunTo_def RunTests_def runWaves.simps availableNodes_def runWave_def
  runNode_def executed_def

section \<open>The store\<close>

lemma items_Set_all:
  "items (Set_all writes s) key =
     (case last_write key writes of Some val \<Rightarrow> Some val | None \<Rightarrow> items s key)"
  unfolding Set_all_def
  by (induction writes arbitrary: s) (auto simp: Set_def split: option.splits)

lemma dag_items_Set_all:
  "dag_items (dag_Set_all writes s) key =
     (case last_write key writes of Some val \<Rightarrow> Some val | None \<Rightarrow> dag_items s key)"
  unfolding dag_Set_all_def
  by (induction writes arbitrary: s) (auto simp: dag_Set_def split: option.splits)

lemma last_write_None: "key \<notin> fst ` set writes \<Longrightarrow> last_write key writes = None"
  by (induction writes) (auto split: option.splits)

text \<open>
  C9. \<^verbatim>\<open>Set\<close> has no failure outcome and overwrites: right after \<^verbatim>\<open>Set(key, val)\<close>,
  \<^verbatim>\<open>Get(key)\<close> returns \<open>val\<close>; and after any sequence of \<^verbatim>\<open>Set\<close> calls, \<^verbatim>\<open>Get(key)\<close>
  returns the value of the last call that wrote \<open>key\<close> (if no call of the sequence
  wrote \<open>key\<close>, what \<^verbatim>\<open>Get(key)\<close> returned before). This holds of the guarded store
  and of the unguarded one.
\<close>

theorem Set_last_write_wins:
  "Get key (Set key val s) = Inr val \<and>
   Get key (Set_all writes s) =
     (case last_write key writes of Some w \<Rightarrow> Inr w | None \<Rightarrow> Get key s) \<and>
   dag_Get key (dag_Set key v t) = v \<and>
   dag_Get key (dag_Set_all ws t) =
     (case last_write key ws of Some w \<Rightarrow> w | None \<Rightarrow> dag_Get key t)"
  by (simp add: Get_def dag_Get_def items_Set_all dag_items_Set_all Set_def dag_Set_def
      split: option.splits)

text \<open>
  C6, as stated, fails on the store of package dag: its \<^verbatim>\<open>Get\<close> returns nil for a key
  that was never set, which is also what it returns for a key set to nil.
\<close>

theorem dag_Get_missing_is_nil:
  "dag_Get ''email'' (dag_NewStore :: unit Store) = None \<and>
   dag_Get ''email'' (dag_Set ''email'' None (dag_NewStore :: unit Store)) = None"
  by (simp add: dag_Get_def dag_Set_def dag_NewStore_def)

text \<open>
  C6, amended to the guarded store \<^verbatim>\<open>TStore\<close>: on a store made by \<^verbatim>\<open>NewStore\<close> and
  written by any sequence of \<^verbatim>\<open>Set\<close> calls none of which wrote \<open>key\<close>, \<^verbatim>\<open>Get(key)\<close>
  fails with key-not-found; once \<open>key\<close> is set, to any value, \<^verbatim>\<open>Get(key)\<close> succeeds
  with that value, so the failure is distinct from every stored value.
\<close>

theorem Get_never_set:
  "key \<notin> fst ` set writes \<Longrightarrow>
     Get key (Set_all writes NewStore) = Inl (KeyNotFound key) \<and>
     Get key (Set key val (Set_all writes NewStore)) = Inr val"
  by (simp add: Get_def items_Set_all last_write_None NewStore_def Set_def)

text \<open>
  A store holding only the key setup: reading email fails, and reading it after
  storing nil under it succeeds with nil.
\<close>

theorem Get_never_set_witness:
  "''email'' \<notin> fst ` set [(''setup'', Some True)] \<and>
   Get ''email'' (Set_all [(''setup'', Some True)] NewStore) = Inl (KeyNotFound ''email'') \<and>
   Get ''email'' (Set ''email'' None (Set_all [(''setup'', Some True)] NewStore)) = Inr None"
  using Get_never_set [of "''email''" "[(''setup'', Some True)]" None] by simp

section \<open>Building the graph\<close>

lemma findNode_Some:
  "findNode ns ident = Some n \<Longrightarrow>
     \<exists>pre post. ns = pre @ n # post \<and> ID n = ident \<and> (\<forall>m \<in> set pre. ID m \<noteq> ident)"
proof (induction ns)
  case Nil
  then show ?case by simp
next
  case (Cons a ns)
  show ?case
  proof (cases "ID a = ident")
    case True
    with Cons.prems have "a # ns = [] @ n # ns \<and> ID n = ident" by simp
    then show ?thesis by (metis empty_iff list.set(1))
  next
    case False
    with Cons obtain pre post where "ns = pre @ n # post" "ID n = ident" "\<forall>m \<in> set pre. ID m \<noteq> ident"
      by auto
    with False have "a # ns = (a # pre) @ n # post \<and> ID n = ident \<and> (\<forall>m \<in> set (a # pre). ID m \<noteq> ident)"
      by simp
    then show ?thesis by blast
  qed
qed

lemma findNode_None: "findNode ns ident = None \<longleftrightarrow> ident \<notin> ID ` set ns"
  by (induction ns) auto

lemma findNode_append:
  "findNode (ns @ ms) ident =
     (case findNode ns ident of Some n \<Rightarrow> Some n | None \<Rightarrow> findNode ms ident)"
  by (induction ns) auto

lemma findNode_ID: "findNode ns ident = Some n \<Longrightarrow> ID n = ident \<and> n \<in> set ns"
  by (induction ns) (auto split: if_splits)

lemma AddEdge_range_Nodes:
  "Nodes (snd (AddEdge_range f fid ts acc d)) = Nodes d"
  by (induction f fid ts acc d rule: AddEdge_range.induct)
     (auto simp: findNodeByID_def Let_def split: option.splits)

lemma AddEdge_range_append:
  "AddEdge_range f fid (xs @ ys) acc d =
     (case AddEdge_range f fid xs acc d of
        (Inl e, d') \<Rightarrow> (Inl e, d')
      | (Inr es, d') \<Rightarrow> AddEdge_range f fid ys es d')"
  by (induction f fid xs acc d rule: AddEdge_range.induct)
     (auto simp: Let_def split: option.splits)

lemma AddEdge_range_success:
  "AddEdge_range f fid ts acc d = (Inr es, d') \<Longrightarrow>
     \<exists>new. es = acc @ new \<and> Edges d' = Edges d @ new \<and>
       map (\<lambda>e. ID (Right e)) new = ts \<and>
       (\<forall>e \<in> set new. Left e = f \<and> findNodeByID d (ID (Right e)) = Some (Right e))"
proof (induction f fid ts acc d arbitrary: es d' rule: AddEdge_range.induct)
  case (1 fromNode fromID edges d)
  then show ?case by simp
next
  case (2 fromNode fromID targetID rest edges d)
  from 2(2) obtain targetNode where t: "findNodeByID d targetID = Some targetNode"
    and nc: "\<not> createsCycle d fromNode targetNode"
    by (auto split: option.splits if_splits)
  define edge where "edge = \<lparr>Left = fromNode, Right = targetNode\<rparr>"
  from 2(2) t nc have run: "AddEdge_range fromNode fromID rest (edges @ [edge])
      (d\<lparr>Edges := Edges d @ [edge]\<rparr>) = (Inr es, d')"
    by (simp add: edge_def Let_def)
  from 2(1)[OF t nc edge_def run] obtain new where new:
    "es = (edges @ [edge]) @ new" "Edges d' = Edges (d\<lparr>Edges := Edges d @ [edge]\<rparr>) @ new"
    "map (\<lambda>e. ID (Right e)) new = rest"
    "\<forall>e \<in> set new. Left e = fromNode \<and>
       findNodeByID (d\<lparr>Edges := Edges d @ [edge]\<rparr>) (ID (Right e)) = Some (Right e)"
    by (elim exE conjE)
  from t have idt: "ID targetNode = targetID"
    by (simp add: findNodeByID_def findNode_ID)
  have 1: "es = edges @ (edge # new)"
    using new(1) by simp
  have 2: "Edges d' = Edges d @ (edge # new)"
    using new(2) by simp
  have 3: "map (\<lambda>e. ID (Right e)) (edge # new) = targetID # rest"
    using new(3) idt by (simp add: edge_def)
  have "Left edge = fromNode \<and> findNodeByID d (ID (Right edge)) = Some (Right edge)"
    using t idt by (simp add: edge_def)
  moreover have "\<forall>e \<in> set new. Left e = fromNode \<and>
      findNodeByID d (ID (Right e)) = Some (Right e)"
    using new(4) by (simp add: findNodeByID_def)
  ultimately have 4: "\<forall>e \<in> set (edge # new). Left e = fromNode \<and>
      findNodeByID d (ID (Right e)) = Some (Right e)"
    by simp
  from 1 2 3 4 have "es = edges @ (edge # new) \<and> Edges d' = Edges d @ (edge # new) \<and>
      map (\<lambda>e. ID (Right e)) (edge # new) = targetID # rest \<and>
      (\<forall>e \<in> set (edge # new). Left e = fromNode \<and> findNodeByID d (ID (Right e)) = Some (Right e))"
    by (intro conjI)
  then show ?case by (rule exI[where x = "edge # new"])
qed

lemma AddEdge_range_failure:
  "AddEdge_range f fid ts acc d = (Inl err, d') \<Longrightarrow>
     \<exists>pre t rest es. ts = pre @ t # rest \<and> AddEdge_range f fid pre acc d = (Inr es, d') \<and>
       (\<forall>acc'. AddEdge_range f fid [t] acc' d' = (Inl err, d'))"
proof (induction f fid ts acc d arbitrary: err d' rule: AddEdge_range.induct)
  case (1 fromNode fromID edges d)
  then show ?case by simp
next
  case (2 fromNode fromID targetID rest edges d)
  show ?case
  proof (cases "findNodeByID d targetID")
    case None
    with 2(2) have "targetID # rest = [] @ targetID # rest \<and>
        AddEdge_range fromNode fromID [] edges d = (Inr edges, d') \<and>
        (\<forall>acc'. AddEdge_range fromNode fromID [targetID] acc' d' = (Inl err, d'))"
      by auto
    then show ?thesis
      by (intro exI[where x = "[]"] exI[where x = targetID] exI[where x = rest]
          exI[where x = edges])
  next
    case (Some targetNode)
    show ?thesis
    proof (cases "createsCycle d fromNode targetNode")
      case True
      with 2(2) Some have "targetID # rest = [] @ targetID # rest \<and>
          AddEdge_range fromNode fromID [] edges d = (Inr edges, d') \<and>
          (\<forall>acc'. AddEdge_range fromNode fromID [targetID] acc' d' = (Inl err, d'))"
        by auto
      then show ?thesis
        by (intro exI[where x = "[]"] exI[where x = targetID] exI[where x = rest]
            exI[where x = edges])
    next
      case False
      define edge where "edge = \<lparr>Left = fromNode, Right = targetNode\<rparr>"
      from 2(2) Some False have run: "AddEdge_range fromNode fromID rest (edges @ [edge])
          (d\<lparr>Edges := Edges d @ [edge]\<rparr>) = (Inl err, d')"
        by (simp add: edge_def Let_def)
      from 2(1)[OF Some False edge_def run]
      obtain pre t rest' es where p: "rest = pre @ t # rest'"
        "AddEdge_range fromNode fromID pre (edges @ [edge]) (d\<lparr>Edges := Edges d @ [edge]\<rparr>) = (Inr es, d')"
        "\<forall>acc'. AddEdge_range fromNode fromID [t] acc' d' = (Inl err, d')"
        by (elim exE conjE)
      with Some False have "targetID # rest = (targetID # pre) @ t # rest' \<and>
          AddEdge_range fromNode fromID (targetID # pre) edges d = (Inr es, d') \<and>
          (\<forall>acc'. AddEdge_range fromNode fromID [t] acc' d' = (Inl err, d'))"
        by (simp add: edge_def Let_def)
      then show ?thesis
        by (intro exI[where x = "targetID # pre"] exI[where x = t] exI[where x = rest']
            exI[where x = es])
    qed
  qed
qed

lemma AddEdge_Nodes: "Nodes (snd (AddEdge fromID toIDs d)) = Nodes d"
  by (simp add: AddEdge_def AddEdge_range_Nodes split: option.splits)

lemma AddEdge_findNodeByID:
  "AddEdge fromID toIDs d = (r, d') \<Longrightarrow> findNodeByID d' ident = findNodeByID d ident"
  using AddEdge_Nodes [of fromID toIDs d] by (simp add: findNodeByID_def)

text \<open>
  C8. \<^verbatim>\<open>AddEdge(from, to...)\<close>:
  \<^item> with \<open>from\<close> unregistered it returns Unknown-Node and the graph is unchanged;
  \<^item> when it succeeds it returns exactly the edges it appended, one from \<open>from\<close> to each
    target, in order;
  \<^item> when the targets \<open>pre\<close> are inserted successfully and the next target \<open>t\<close> then
    fails, the call returns the error of \<open>t\<close>, whatever targets follow, and the graph
    is the one with the edges to \<open>pre\<close> appended;
  \<^item> every error of a call with a registered \<open>from\<close> arises in that way;
  \<^item> the error of a single target is Unknown-Node when the target is unregistered and
    the cycle rejection when the cycle check fires, and nothing is appended with it.
\<close>

theorem AddEdge_stops_at_first_error:
  "(findNodeByID d fromID = None \<longrightarrow> AddEdge fromID toIDs d = (Inl (UnknownNode fromID), d)) \<and>
   (AddEdge fromID toIDs d = (Inr edges, d') \<longrightarrow>
      Edges d' = Edges d @ edges \<and>
      map (\<lambda>e. (ID (Left e), ID (Right e))) edges = map (Pair fromID) toIDs) \<and>
   (AddEdge fromID pre d = (Inr es, d1) \<and> AddEdge fromID [t] d1 = (Inl err, d2) \<longrightarrow>
      AddEdge fromID (pre @ t # rest) d = (Inl err, d1) \<and> Edges d1 = Edges d @ es) \<and>
   (findNodeByID d fromID \<noteq> None \<and> AddEdge fromID toIDs d = (Inl err', d3) \<longrightarrow>
      (\<exists>pre' t' rest' es'. toIDs = pre' @ t' # rest' \<and>
         AddEdge fromID pre' d = (Inr es', d3) \<and> AddEdge fromID [t'] d3 = (Inl err', d3))) \<and>
   (findNodeByID d fromID = Some fromNode \<longrightarrow>
      AddEdge fromID [t] d =
        (case findNodeByID d t of
           None \<Rightarrow> (Inl (UnknownNode t), d)
         | Some toNode \<Rightarrow>
             if createsCycle d fromNode toNode then (Inl (CycleRejected fromID t), d)
             else (Inr [\<lparr>Left = fromNode, Right = toNode\<rparr>],
                   d\<lparr>Edges := Edges d @ [\<lparr>Left = fromNode, Right = toNode\<rparr>]\<rparr>)))"
proof (intro conjI)
  show "findNodeByID d fromID = None \<longrightarrow> AddEdge fromID toIDs d = (Inl (UnknownNode fromID), d)"
    by (simp add: AddEdge_def)
next
  show "findNodeByID d fromID = Some fromNode \<longrightarrow>
      AddEdge fromID [t] d =
        (case findNodeByID d t of
           None \<Rightarrow> (Inl (UnknownNode t), d)
         | Some toNode \<Rightarrow>
             if createsCycle d fromNode toNode then (Inl (CycleRejected fromID t), d)
             else (Inr [\<lparr>Left = fromNode, Right = toNode\<rparr>],
                   d\<lparr>Edges := Edges d @ [\<lparr>Left = fromNode, Right = toNode\<rparr>]\<rparr>))"
    by (simp add: AddEdge_def Let_def split: option.splits)
next
  show "AddEdge fromID toIDs d = (Inr edges, d') \<longrightarrow>
      Edges d' = Edges d @ edges \<and>
      map (\<lambda>e. (ID (Left e), ID (Right e))) edges = map (Pair fromID) toIDs"
  proof
  assume a: "AddEdge fromID toIDs d = (Inr edges, d')"
  then obtain f where f: "findNodeByID d fromID = Some f"
    and r: "AddEdge_range f fromID toIDs [] d = (Inr edges, d')"
    by (auto simp: AddEdge_def split: option.splits)
  from f have "ID f = fromID" by (simp add: findNodeByID_def findNode_ID)
  moreover from AddEdge_range_success[OF r] obtain new where
    "edges = new" "Edges d' = Edges d @ new" "map (\<lambda>e. ID (Right e)) new = toIDs"
    "\<forall>e \<in> set new. Left e = f" by auto
  ultimately have e: "Edges d' = Edges d @ edges"
    and r: "map (\<lambda>e. ID (Right e)) edges = toIDs"
    and l: "\<forall>e \<in> set edges. ID (Left e) = fromID"
    by auto
  from l have "map (\<lambda>e. (ID (Left e), ID (Right e))) edges
      = map (Pair fromID) (map (\<lambda>e. ID (Right e)) edges)"
    by (induction edges) auto
  with e r show "Edges d' = Edges d @ edges \<and>
      map (\<lambda>e. (ID (Left e), ID (Right e))) edges = map (Pair fromID) toIDs"
    by simp
  qed
next
  show "AddEdge fromID pre d = (Inr es, d1) \<and> AddEdge fromID [t] d1 = (Inl err, d2) \<longrightarrow>
      AddEdge fromID (pre @ t # rest) d = (Inl err, d1) \<and> Edges d1 = Edges d @ es"
  proof
  assume a: "AddEdge fromID pre d = (Inr es, d1) \<and> AddEdge fromID [t] d1 = (Inl err, d2)"
  then obtain f where f: "findNodeByID d fromID = Some f"
    and r: "AddEdge_range f fromID pre [] d = (Inr es, d1)"
    by (auto simp: AddEdge_def split: option.splits)
  from a f have f1: "findNodeByID d1 fromID = Some f"
    using AddEdge_findNodeByID[of fromID pre d "Inr es" d1 fromID] by simp
  with a have t: "AddEdge_range f fromID [t] [] d1 = (Inl err, d2)"
    by (simp add: AddEdge_def)
  then have t': "AddEdge_range f fromID (t # rest) es d1 = (Inl err, d1)"
    by (cases "findNodeByID d1 t") (auto simp: Let_def split: if_splits)
  from AddEdge_range_success[OF r] have "Edges d1 = Edges d @ es" by auto
  with f r t' show "AddEdge fromID (pre @ t # rest) d = (Inl err, d1) \<and> Edges d1 = Edges d @ es"
    by (simp add: AddEdge_def AddEdge_range_append)
  qed
next
  show "findNodeByID d fromID \<noteq> None \<and> AddEdge fromID toIDs d = (Inl err', d3) \<longrightarrow>
      (\<exists>pre' t' rest' es'. toIDs = pre' @ t' # rest' \<and>
         AddEdge fromID pre' d = (Inr es', d3) \<and> AddEdge fromID [t'] d3 = (Inl err', d3))"
  proof
  assume a: "findNodeByID d fromID \<noteq> None \<and> AddEdge fromID toIDs d = (Inl err', d3)"
  then obtain f where f: "findNodeByID d fromID = Some f"
    and r: "AddEdge_range f fromID toIDs [] d = (Inl err', d3)"
    by (auto simp: AddEdge_def split: option.splits)
  from AddEdge_range_failure[OF r] obtain pre' t' rest' es' where p:
    "toIDs = pre' @ t' # rest'" "AddEdge_range f fromID pre' [] d = (Inr es', d3)"
    "AddEdge_range f fromID [t'] [] d3 = (Inl err', d3)"
    by (elim exE conjE) (drule spec[where x = "[]"])
  from p(2) f have 1: "AddEdge fromID pre' d = (Inr es', d3)"
    by (simp add: AddEdge_def)
  with f have "findNodeByID d3 fromID = Some f"
    using AddEdge_findNodeByID[of fromID pre' d "Inr es'" d3 fromID] by simp
  with p(3) have "AddEdge fromID [t'] d3 = (Inl err', d3)"
    by (simp add: AddEdge_def)
  with p(1) 1 have "toIDs = pre' @ t' # rest' \<and>
      AddEdge fromID pre' d = (Inr es', d3) \<and> AddEdge fromID [t'] d3 = (Inl err', d3)"
    by (intro conjI)
  then show "\<exists>pre' t' rest' es'. toIDs = pre' @ t' # rest' \<and>
      AddEdge fromID pre' d = (Inr es', d3) \<and> AddEdge fromID [t'] d3 = (Inl err', d3)"
    by (intro exI[where x = pre'] exI[where x = t'] exI[where x = rest'] exI[where x = es'])
  qed
qed

text \<open>
  On the three nodes A, B, C: an unregistered \<open>from\<close>; a call that succeeds on two
  targets; and a call A \<rightarrow> B, X, C that inserts A\<rightarrow>B, fails on the unregistered X
  and keeps A\<rightarrow>B.
\<close>

theorem AddEdge_stops_at_first_error_witness:
  "findNodeByID three_nodes ''X'' = None \<and>
   AddEdge ''X'' [''B''] three_nodes = (Inl (UnknownNode ''X''), three_nodes) \<and>
   AddEdge ''A'' [''B'', ''C''] three_nodes
     = (Inr (projr (fst (AddEdge ''A'' [''B'', ''C''] three_nodes))),
        snd (AddEdge ''A'' [''B'', ''C''] three_nodes)) \<and>
   map (\<lambda>e. (ID (Left e), ID (Right e))) (projr (fst (AddEdge ''A'' [''B'', ''C''] three_nodes)))
     = [(''A'', ''B''), (''A'', ''C'')] \<and>
   AddEdge ''A'' [''B''] three_nodes
     = (Inr (projr (fst (AddEdge ''A'' [''B''] three_nodes))),
        snd (AddEdge ''A'' [''B''] three_nodes)) \<and>
   AddEdge ''A'' [''X''] (snd (AddEdge ''A'' [''B''] three_nodes))
     = (Inl (UnknownNode ''X''), snd (AddEdge ''A'' [''B''] three_nodes)) \<and>
   AddEdge ''A'' ([''B''] @ ''X'' # [''C'']) three_nodes
     = (Inl (UnknownNode ''X''), snd (AddEdge ''A'' [''B''] three_nodes)) \<and>
   edge_ids (snd (AddEdge ''A'' [''B'', ''X'', ''C''] three_nodes)) = [(''A'', ''B'')] \<and>
   findNodeByID three_nodes ''A'' \<noteq> None \<and>
   findNodeByID three_nodes ''A'' = Some (the (findNodeByID three_nodes ''A'')) \<and>
   AddEdge ''A'' [''X''] three_nodes = (Inl (UnknownNode ''X''), three_nodes)"
  using AddEdge_stops_at_first_error [where d = three_nodes and fromID = "''X''"
      and toIDs = "[''B'']"]
    AddEdge_stops_at_first_error [where d = three_nodes and fromID = "''A''"
      and toIDs = "[''B'', ''C'']"
      and edges = "projr (fst (AddEdge ''A'' [''B'', ''C''] three_nodes))"
      and d' = "snd (AddEdge ''A'' [''B'', ''C''] three_nodes)"
      and pre = "[''B'']" and t = "''X''" and rest = "[''C'']"
      and es = "projr (fst (AddEdge ''A'' [''B''] three_nodes))"
      and ?d1.0 = "snd (AddEdge ''A'' [''B''] three_nodes)"
      and ?d2.0 = "snd (AddEdge ''A'' [''B''] three_nodes)"
      and err = "UnknownNode ''X''"
      and fromNode = "the (findNodeByID three_nodes ''A'')"]
    AddEdge_stops_at_first_error [where d = three_nodes and fromID = "''A''"
      and toIDs = "[''B'', ''X'', ''C'']" and err' = "UnknownNode ''X''"
      and ?d3.0 = "snd (AddEdge ''A'' [''B''] three_nodes)"]
  by (simp add: build_simps)

text \<open>
  C1 says that an edge whose insertion would close a cycle is rejected and the edges
  stay as they were. On the graph with the edges A\<rightarrow>B and B\<rightarrow>C,
  \<^verbatim>\<open>AddEdge("C", "A")\<close> returns the new edge and no error, and the graph then holds
  A\<rightarrow>B, B\<rightarrow>C and C\<rightarrow>A, on which A reaches A. The walk of \<^verbatim>\<open>createsCycle(from, to)\<close>
  starts at \<open>from\<close> and looks for \<open>to\<close>; a cycle is closed when \<open>from\<close> can be
  reached from \<open>to\<close>.
\<close>

theorem AddEdge_accepts_back_edge:
  "map_sum id (map (\<lambda>e. (ID (Left e), ID (Right e)))) (fst (AddEdge ''C'' [''A''] chain_abc))
     = Inr [(''C'', ''A'')] \<and>
   edge_ids (snd (AddEdge ''C'' [''A''] chain_abc))
     = [(''A'', ''B''), (''B'', ''C''), (''C'', ''A'')] \<and>
   (''A'', ''A'') \<in> (edge_rel (snd (AddEdge ''C'' [''A''] chain_abc)))\<^sup>+"
proof -
  have e: "edge_ids (snd (AddEdge ''C'' [''A''] chain_abc))
     = [(''A'', ''B''), (''B'', ''C''), (''C'', ''A'')]"
    by (simp add: build_simps)
  have "(''A'', ''A'') \<in> (set [(''A'', ''B''), (''B'', ''C''), (''C'', ''A'')])\<^sup>+"
    by (rule trancl_into_trancl[where b = "''C''"], rule trancl_into_trancl[where b = "''B''"],
        rule r_into_trancl) simp_all
  with e show ?thesis
    by (simp add: edge_rel_def) (simp add: build_simps)
qed

text \<open>
  C2 says that an edge to a node that is already reachable from \<open>from\<close> is judged safe
  and appended. On the graph with the edges A\<rightarrow>B and B\<rightarrow>C, where C is reachable from
  A, \<^verbatim>\<open>AddEdge("A", "C")\<close> returns the cycle error and leaves the graph as it was,
  although A\<rightarrow>C closes no cycle.
\<close>

theorem AddEdge_rejects_forward_edge:
  "edge_ids chain_abc = [(''A'', ''B''), (''B'', ''C'')] \<and>
   AddEdge ''A'' [''C''] chain_abc = (Inl (CycleRejected ''A'' ''C''), chain_abc)"
  by (simp add: build_simps)

lemma AddEdge_self_loop:
  "findNodeByID d x \<noteq> None \<Longrightarrow> AddEdge x [x] d = (Inl (CycleRejected x x), d)"
  by (auto simp: AddEdge_def createsCycle_def)

section \<open>The events of a run\<close>

lemma runHooks_fields:
  "trace (runHooks mk i fns st) = trace st @ map mk [i..<i + length fns] \<and>
   ctx (runHooks mk i fns st) = callEach fns (ctx st) \<and>
   completed (runHooks mk i fns st) = completed st \<and>
   inDegree (runHooks mk i fns st) = inDegree st"
proof (induction fns arbitrary: i st)
  case Nil
  show ?case by simp
next
  case (Cons fn fns)
  have "[i..<i + length (fn # fns)] = i # [Suc i..<Suc i + length fns]"
    by (simp add: upt_rec)
  with Cons[of "Suc i"] show ?case by simp
qed

lemma fold_runNode_trace: "trace (fold (runNode d outEdges) ns st) = trace st"
  by (induction ns arbitrary: st) (simp_all add: runNode_def)

lemma runWave_trace: "trace (runWave d outEdges ns st) = trace st @ [Wave ns]"
  by (simp add: runWave_def Let_def fold_runNode_trace)

lemma runWaves_trace:
  "runWaves d required remainingOf outEdges st = (r, st') \<Longrightarrow>
     \<exists>ws. trace st' = trace st @ map Wave ws"
proof (induction d required remainingOf outEdges st rule: runWaves.induct)
  case (1 d required remainingOf outEdges st)
  show ?case
  proof (cases "availableNodes d required st = []")
    case True
    with 1(2) have "trace st' = trace st @ map Wave []"
      by (auto simp: runWaves.simps[of d required remainingOf outEdges st] Let_def
          split: if_splits)
    then show ?thesis by (rule exI)
  next
    case False
    with 1(2) have "runWaves d required remainingOf outEdges
        (runWave d outEdges (availableNodes d required st) st) = (r, st')"
      by (simp add: runWaves.simps[of d required remainingOf outEdges st] Let_def)
    from 1(1)[OF refl False this] obtain ws where
      "trace st' = trace (runWave d outEdges (availableNodes d required st) st) @ map Wave ws"
      by (elim exE)
    then have "trace st' = trace st @ map Wave (availableNodes d required st # ws)"
      by (simp add: runWave_trace)
    then show ?thesis by (rule exI)
  qed
qed

lemma runWaves_error:
  "runWaves d required remainingOf outEdges st = (Some err, st') \<Longrightarrow>
     \<exists>remaining. err = DependencyCycle remaining"
proof (induction d required remainingOf outEdges st rule: runWaves.induct)
  case (1 d required remainingOf outEdges st)
  show ?case
  proof (cases "availableNodes d required st = []")
    case True
    with 1(2) have "err = DependencyCycle (remainingOf (completed st))"
      by (auto simp: runWaves.simps[of d required remainingOf outEdges st] Let_def
          split: if_splits)
    then show ?thesis by (rule exI)
  next
    case False
    with 1(2) have "runWaves d required remainingOf outEdges
        (runWave d outEdges (availableNodes d required st) st) = (Some err, st')"
      by (simp add: runWaves.simps[of d required remainingOf outEdges st] Let_def)
    from 1(1)[OF refl False this] show ?thesis .
  qed
qed

lemma RunTests_trace:
  "RunTests d = (r, st) \<Longrightarrow>
     \<exists>ws. trace st = map Wave ws @
       (if r = None then map TearDownHook [0..<length (TearDownFns d)] else [])"
proof -
  assume a: "RunTests d = (r, st)"
  obtain inDeg outEdges where b: "buildAdjacency (\<lambda>_. True) (Edges d)
      (zeroAll (Nodes d) (\<lambda>_. 0), \<lambda>_. []) = (inDeg, outEdges)"
    by (cases "buildAdjacency (\<lambda>_. True) (Edges d) (zeroAll (Nodes d) (\<lambda>_. 0), \<lambda>_. [])")
  define st0 where "st0 = \<lparr>inDegree = inDeg, completed = {}, ctx = Ctx d, trace = []\<rparr>"
  obtain r' st' where w: "runWaves d (\<lambda>_. True)
      (\<lambda>finished. set (filter (\<lambda>i. i \<notin> finished) (map ID (Nodes d)))) outEdges st0 = (r', st')"
    by (cases "runWaves d (\<lambda>_. True)
      (\<lambda>finished. set (filter (\<lambda>i. i \<notin> finished) (map ID (Nodes d)))) outEdges st0")
  from runWaves_trace[OF w] obtain ws where ws: "trace st' = map Wave ws"
    by (auto simp: st0_def)
  from a b w have "r = r' \<and> st = (if r' = None then runHooks TearDownHook 0 (TearDownFns d) st' else st')"
    by (auto simp: RunTests_def Let_def st0_def split: option.splits)
  with ws have "trace st = map Wave ws @
       (if r = None then map TearDownHook [0..<length (TearDownFns d)] else [])"
    by (simp add: runHooks_fields)
  then show ?thesis by (rule exI)
qed

lemma RunTo_trace:
  "RunTo ident d = (r, st) \<Longrightarrow> findNodeByID d ident \<noteq> None \<Longrightarrow>
     \<exists>ws. trace st = map SetupHook [0..<length (SetupFns d)] @ map Wave ws @
       (if r = None then map TearDownHook [0..<length (TearDownFns d)] else [])"
proof -
  assume a: "RunTo ident d = (r, st)" and f: "findNodeByID d ident \<noteq> None"
  define rq where "rq = collectDependencies (Edges d) ident {}"
  obtain inDeg outEdges where b: "buildAdjacency (\<lambda>i. i \<in> rq) (Edges d)
      (zeroAll (filter (\<lambda>node. ID node \<in> rq) (Nodes d)) (\<lambda>_. 0), \<lambda>_. []) = (inDeg, outEdges)"
    by (cases "buildAdjacency (\<lambda>i. i \<in> rq) (Edges d)
      (zeroAll (filter (\<lambda>node. ID node \<in> rq) (Nodes d)) (\<lambda>_. 0), \<lambda>_. [])")
  define st1 where "st1 = runHooks SetupHook 0 (SetupFns d)
      \<lparr>inDegree = inDeg, completed = {}, ctx = Ctx d, trace = []\<rparr>"
  obtain r' st' where w: "runWaves d (\<lambda>i. i \<in> rq) (\<lambda>finished. rq - finished) outEdges st1 = (r', st')"
    by (cases "runWaves d (\<lambda>i. i \<in> rq) (\<lambda>finished. rq - finished) outEdges st1")
  from runWaves_trace[OF w] obtain ws where
    ws: "trace st' = map SetupHook [0..<length (SetupFns d)] @ map Wave ws"
    by (auto simp: st1_def runHooks_fields)
  from a b w f have "r = r' \<and> st = (if r' = None then runHooks TearDownHook 0 (TearDownFns d) st' else st')"
    by (auto simp: RunTo_def Let_def st1_def rq_def split: option.splits)
  with ws have "trace st = map SetupHook [0..<length (SetupFns d)] @ map Wave ws @
       (if r = None then map TearDownHook [0..<length (TearDownFns d)] else [])"
    by (simp add: runHooks_fields)
  then show ?thesis by (rule exI)
qed

lemma waves_append: "waves (xs @ ys) = waves xs @ waves ys"
  by (induction xs rule: waves.induct) simp_all

lemma waves_map [simp]:
  "waves (map Wave ws) = ws" "waves (map SetupHook ks) = []" "waves (map TearDownHook ks) = []"
  by (induction ws, simp_all) (induction ks, simp_all)+

text \<open>
  C7. When \<^verbatim>\<open>RunTests\<close> or \<^verbatim>\<open>RunTo\<close> ends without a fatal report, the trace of the run
  ends with the teardown hooks, each once, in the order of their registration, and
  nothing before them is a teardown hook: every wave, so every node that was executed,
  comes before the first teardown hook.
\<close>

theorem teardown_after_normal_exit:
  "(RunTests d = (None, st) \<longrightarrow>
      (\<exists>before. trace st = before @ map TearDownHook [0..<length (TearDownFns d)] \<and>
         (\<forall>i. TearDownHook i \<notin> set before) \<and> executed before = executed (trace st))) \<and>
   (RunTo ident d = (None, st') \<longrightarrow>
      (\<exists>before. trace st' = before @ map TearDownHook [0..<length (TearDownFns d)] \<and>
         (\<forall>i. TearDownHook i \<notin> set before) \<and> executed before = executed (trace st')))"
proof (intro conjI impI)
  assume a: "RunTests d = (None, st)"
  from RunTests_trace[OF a] obtain ws where
    ws: "trace st = map Wave ws @ map TearDownHook [0..<length (TearDownFns d)]"
    by auto
  then have "trace st = map Wave ws @ map TearDownHook [0..<length (TearDownFns d)] \<and>
      (\<forall>i. TearDownHook i \<notin> set (map Wave ws)) \<and>
      executed (map Wave ws) = executed (trace st)"
    by (auto simp: executed_def waves_append)
  then show "\<exists>before. trace st = before @ map TearDownHook [0..<length (TearDownFns d)] \<and>
      (\<forall>i. TearDownHook i \<notin> set before) \<and> executed before = executed (trace st)"
    by (rule exI)
next
  assume a: "RunTo ident d = (None, st')"
  then have "findNodeByID d ident \<noteq> None"
    by (cases "findNodeByID d ident") (simp_all add: RunTo_def)
  from RunTo_trace[OF a this] obtain ws where
    ws: "trace st' = map SetupHook [0..<length (SetupFns d)] @ map Wave ws @
       map TearDownHook [0..<length (TearDownFns d)]"
    by auto
  then have "trace st' = (map SetupHook [0..<length (SetupFns d)] @ map Wave ws) @
        map TearDownHook [0..<length (TearDownFns d)] \<and>
      (\<forall>i. TearDownHook i \<notin> set (map SetupHook [0..<length (SetupFns d)] @ map Wave ws)) \<and>
      executed (map SetupHook [0..<length (SetupFns d)] @ map Wave ws) = executed (trace st')"
    by (auto simp: executed_def waves_append)
  then show "\<exists>before. trace st' = before @ map TearDownHook [0..<length (TearDownFns d)] \<and>
      (\<forall>i. TearDownHook i \<notin> set before) \<and> executed before = executed (trace st')"
    by (rule exI)
qed

text \<open>
  The example graph with one setup hook, one node and one teardown hook: both runs end
  normally, the teardown hook is the last event, and in \<^verbatim>\<open>RunTo\<close> the node has read
  the key that the setup hook stored.
\<close>

theorem teardown_after_normal_exit_witness:
  "RunTests login_dag = (None, snd (RunTests login_dag)) \<and>
   RunTo ''session.login'' login_dag = (None, snd (RunTo ''session.login'' login_dag)) \<and>
   (\<exists>before. trace (snd (RunTests login_dag)) = before @ map TearDownHook [0..<1] \<and>
      (\<forall>i. TearDownHook i \<notin> set before) \<and>
      executed before = executed (trace (snd (RunTests login_dag)))) \<and>
   (\<exists>before. trace (snd (RunTo ''session.login'' login_dag)) = before @ map TearDownHook [0..<1] \<and>
      (\<forall>i. TearDownHook i \<notin> set before) \<and>
      executed before = executed (trace (snd (RunTo ''session.login'' login_dag)))) \<and>
   T (ctx (snd (RunTo ''session.login'' login_dag)))
     = [''session.login: test@example.com'', ''tear down'']"
proof -
  have 1: "RunTests login_dag = (None, snd (RunTests login_dag))"
    by (simp add: build_simps run_simps)
  have 2: "RunTo ''session.login'' login_dag = (None, snd (RunTo ''session.login'' login_dag))"
    by (simp add: build_simps run_simps)
  have 3: "length (TearDownFns login_dag) = 1"
    by (simp add: build_simps)
  have 4: "T (ctx (snd (RunTo ''session.login'' login_dag)))
     = [''session.login: test@example.com'', ''tear down'']"
    by (simp add: build_simps run_simps login_def setup_email_def log_teardown_def Get_def
        Set_def NewStore_def)
  from teardown_after_normal_exit [of login_dag "snd (RunTests login_dag)" "''session.login''"
      "snd (RunTo ''session.login'' login_dag)"] 1 2 3 4
  show ?thesis by simp
qed

text \<open>
  C5 says that both runs call the setup hooks before any node. On the example graph,
  which has one setup hook, the trace of \<^verbatim>\<open>RunTests\<close> holds no setup event: the node
  runs, finds the key email missing, and the teardown hook follows. \<^verbatim>\<open>RunTo\<close> on the
  same graph starts with the setup hook and the node finds the key.
\<close>

theorem RunTests_skips_setup_hooks:
  "length (SetupFns login_dag) = 1 \<and>
   (\<forall>i. SetupHook i \<notin> set (trace (snd (RunTests login_dag)))) \<and>
   map (map ID) (waves (trace (snd (RunTests login_dag)))) = [[''session.login'']] \<and>
   T (ctx (snd (RunTests login_dag))) = [''assert.NoError failed'', ''tear down''] \<and>
   hd (trace (snd (RunTo ''session.login'' login_dag))) = SetupHook 0 \<and>
   T (ctx (snd (RunTo ''session.login'' login_dag)))
     = [''session.login: test@example.com'', ''tear down'']"
  by (simp add: build_simps run_simps login_def setup_email_def log_teardown_def Get_def
      Set_def NewStore_def)

text \<open>No run of \<^verbatim>\<open>RunTests\<close> on any graph calls a setup hook.\<close>

lemma RunTests_no_setup: "SetupHook i \<notin> set (trace (snd (RunTests d)))"
proof -
  obtain r st where a: "RunTests d = (r, st)" by (cases "RunTests d")
  from RunTests_trace[OF a] a show ?thesis by auto
qed

text \<open>\<^verbatim>\<open>RunTo\<close> on a registered target calls them all, in order, before the first wave.\<close>

lemma RunTo_setup_first:
  "findNodeByID d ident \<noteq> None \<Longrightarrow>
     \<exists>rest. trace (snd (RunTo ident d)) = map SetupHook [0..<length (SetupFns d)] @ rest \<and>
       (\<forall>i. SetupHook i \<notin> set rest)"
proof -
  assume f: "findNodeByID d ident \<noteq> None"
  obtain r st where a: "RunTo ident d = (r, st)" by (cases "RunTo ident d")
  from RunTo_trace[OF a f] obtain ws where
    "trace st = map SetupHook [0..<length (SetupFns d)] @ (map Wave ws @
       (if r = None then map TearDownHook [0..<length (TearDownFns d)] else []))"
    by auto
  then have "trace (snd (RunTo ident d)) = map SetupHook [0..<length (SetupFns d)] @ (map Wave ws @
       (if r = None then map TearDownHook [0..<length (TearDownFns d)] else [])) \<and>
     (\<forall>i. SetupHook i \<notin> set (map Wave ws @
       (if r = None then map TearDownHook [0..<length (TearDownFns d)] else [])))"
    using a by auto
  then show ?thesis by (rule exI)
qed

section \<open>Registration and lookup\<close>

lemma findNode_self: "findNode ns ident = Some n \<Longrightarrow> findNode ns (ID n) = Some n"
  using findNode_ID by fastforce

lemma AddEdge_range_ends_found:
  "\<forall>e \<in> set (Edges d). ends_found (Nodes d) e \<Longrightarrow> findNode (Nodes d) (ID f) = Some f \<Longrightarrow>
     \<forall>e \<in> set (Edges (snd (AddEdge_range f fid ts acc d))). ends_found (Nodes d) e"
proof (induction f fid ts acc d rule: AddEdge_range.induct)
  case (1 fromNode fromID edges d)
  then show ?case by simp
next
  case (2 fromNode fromID targetID rest edges d)
  show ?case
  proof (cases "findNodeByID d targetID")
    case None
    with 2(2) show ?thesis by simp
  next
    case (Some targetNode)
    show ?thesis
    proof (cases "createsCycle d fromNode targetNode")
      case True
      with Some 2(2) show ?thesis by simp
    next
      case False
      define edge where "edge = \<lparr>Left = fromNode, Right = targetNode\<rparr>"
      from Some have "findNode (Nodes d) (ID targetNode) = Some targetNode"
        by (simp add: findNodeByID_def findNode_self)
      with 2(3) have "ends_found (Nodes d) edge"
        by (simp add: ends_found_def edge_def)
      with 2(2) have "\<forall>e \<in> set (Edges (d\<lparr>Edges := Edges d @ [edge]\<rparr>)).
          ends_found (Nodes (d\<lparr>Edges := Edges d @ [edge]\<rparr>)) e"
        by simp
      from 2(1)[OF Some False edge_def this] 2(3) Some False show ?thesis
        by (simp add: edge_def Let_def)
    qed
  qed
qed

lemma ends_found_append: "ends_found ns e \<Longrightarrow> ends_found (ns @ ms) e"
  by (simp add: ends_found_def findNode_append)

lemma built_invariant:
  "built d \<Longrightarrow> refs_in_order d \<and> (\<forall>e \<in> set (Edges d). ends_found (Nodes d) e)"
proof (induction rule: built.induct)
  case (built_NewTDag c)
  show ?case by (simp add: NewTDag_def refs_in_order_def)
next
  case (built_AddNode d ident fn)
  then show ?case
    by (simp add: AddNode_def Let_def refs_in_order_def ends_found_append)
next
  case (built_AddEdge d fromID toIDs)
  show ?case
  proof (cases "findNodeByID d fromID")
    case None
    with built_AddEdge show ?thesis by (simp add: AddEdge_def)
  next
    case (Some f)
    then have "findNode (Nodes d) (ID f) = Some f"
      by (simp add: findNodeByID_def findNode_self)
    with built_AddEdge have "\<forall>e \<in> set (Edges (snd (AddEdge_range f fromID toIDs [] d))).
        ends_found (Nodes d) e"
      by (intro AddEdge_range_ends_found) simp_all
    with built_AddEdge Some show ?thesis
      by (simp add: AddEdge_def refs_in_order_def AddEdge_range_Nodes)
  qed
next
  case (built_Setup d fn)
  then show ?case by (simp add: Setup_def refs_in_order_def)
next
  case (built_TearDown d fn)
  then show ?case by (simp add: TearDown_def refs_in_order_def)
next
  case (built_BeforeEach d fn)
  then show ?case by (simp add: BeforeEach_def refs_in_order_def)
next
  case (built_AfterEach d fn)
  then show ?case by (simp add: AfterEach_def refs_in_order_def)
qed

lemma findNode_least_ref:
  assumes "map ref ns = [0..<length ns]" "findNode ns ident = Some n" "m \<in> set ns" "ID m = ident"
  shows "ref n \<le> ref m"
proof -
  from findNode_Some[OF assms(2)] obtain pre post where
    ns: "ns = pre @ n # post" and pre: "\<forall>m \<in> set pre. ID m \<noteq> ident"
    by (elim exE conjE)
  have nth: "ref (ns ! k) = k" if "k < length ns" for k
    using assms(1) that by (metis add_0 nth_map nth_upt)
  from ns have "ref n = length pre"
    using nth[of "length pre"] by simp
  moreover from assms(3) obtain k where k: "k < length ns" "ns ! k = m"
    by (auto simp: in_set_conv_nth)
  have "\<not> k < length pre"
  proof
    assume "k < length pre"
    with ns k have "m \<in> set pre" by (auto simp: nth_append)
    with pre assms(4) show False by simp
  qed
  ultimately show ?thesis using nth[OF k(1)] k(2) by simp
qed

text \<open>
  C10. On every graph that the interface can build: \<^verbatim>\<open>AddNode\<close> appends a new node, at
  a fresh address, whether or not its identifier is registered already, and leaves the
  edges alone; a lookup fails exactly for the identifiers that no node bears; a
  lookup that succeeds returns, among the nodes bearing the identifier, the one
  registered first, and goes on returning it after any further \<^verbatim>\<open>AddNode\<close>; the two ends
  of every edge are the nodes their identifiers look up, so no edge holds a later
  duplicate; and \<^verbatim>\<open>RunTo\<close> reports an unknown target exactly when the lookup fails.
\<close>

theorem first_registered_node_wins:
  assumes "built d"
  shows "Nodes (snd (AddNode ident fn d)) = Nodes d @ [fst (AddNode ident fn d)] \<and>
    Edges (snd (AddNode ident fn d)) = Edges d \<and>
    ID (fst (AddNode ident fn d)) = ident \<and>
    ref (fst (AddNode ident fn d)) \<notin> ref ` set (Nodes d) \<and>
    (\<forall>i. (findNodeByID d i = None) = (i \<notin> ID ` set (Nodes d))) \<and>
    (\<forall>i n. findNodeByID d i = Some n \<longrightarrow>
       n \<in> set (Nodes d) \<and> ID n = i \<and> (\<forall>m \<in> set (Nodes d). ID m = i \<longrightarrow> ref n \<le> ref m) \<and>
       findNodeByID (snd (AddNode ident fn d)) i = Some n) \<and>
    (\<forall>e \<in> set (Edges d).
       findNodeByID d (ID (Left e)) = Some (Left e) \<and>
       findNodeByID d (ID (Right e)) = Some (Right e)) \<and>
    (\<forall>i. (fst (RunTo i d) = Some (UnknownNode i)) = (findNodeByID d i = None))"
proof -
  from built_invariant[OF assms] have refs: "map ref (Nodes d) = [0..<length (Nodes d)]"
    and ends: "\<forall>e \<in> set (Edges d). ends_found (Nodes d) e"
    by (simp_all add: refs_in_order_def)
  have fresh: "length (Nodes d) \<notin> ref ` set (Nodes d)"
  proof -
    have "ref ` set (Nodes d) = set (map ref (Nodes d))" by simp
    also have "\<dots> = {0..<length (Nodes d)}" by (simp only: refs set_upt)
    finally show ?thesis by simp
  qed
  have 1: "Nodes (snd (AddNode ident fn d)) = Nodes d @ [fst (AddNode ident fn d)] \<and>
    Edges (snd (AddNode ident fn d)) = Edges d \<and>
    ID (fst (AddNode ident fn d)) = ident \<and>
    ref (fst (AddNode ident fn d)) \<notin> ref ` set (Nodes d)"
    using fresh by (simp add: AddNode_def Let_def)
  have 2: "\<forall>i. (findNodeByID d i = None) = (i \<notin> ID ` set (Nodes d))"
    by (simp add: findNodeByID_def findNode_None)
  have 3: "\<forall>i n. findNodeByID d i = Some n \<longrightarrow>
       n \<in> set (Nodes d) \<and> ID n = i \<and> (\<forall>m \<in> set (Nodes d). ID m = i \<longrightarrow> ref n \<le> ref m) \<and>
       findNodeByID (snd (AddNode ident fn d)) i = Some n"
    using findNode_least_ref[OF refs]
    by (auto simp: findNodeByID_def findNode_ID AddNode_def Let_def findNode_append)
  have 4: "\<forall>e \<in> set (Edges d).
       findNodeByID d (ID (Left e)) = Some (Left e) \<and>
       findNodeByID d (ID (Right e)) = Some (Right e)"
    using ends by (simp add: ends_found_def findNodeByID_def)
  have 5: "\<forall>i. (fst (RunTo i d) = Some (UnknownNode i)) = (findNodeByID d i = None)"
  proof
    fix i
    show "(fst (RunTo i d) = Some (UnknownNode i)) = (findNodeByID d i = None)"
    proof (cases "findNodeByID d i")
      case None
      then show ?thesis by (simp add: RunTo_def)
    next
      case (Some n)
      have "fst (RunTo i d) \<noteq> Some (UnknownNode i)"
      proof
        assume u: "fst (RunTo i d) = Some (UnknownNode i)"
        define rq where "rq = collectDependencies (Edges d) i {}"
        obtain inDeg outEdges where b: "buildAdjacency (\<lambda>i. i \<in> rq) (Edges d)
            (zeroAll (filter (\<lambda>node. ID node \<in> rq) (Nodes d)) (\<lambda>_. 0), \<lambda>_. [])
            = (inDeg, outEdges)"
          by (cases "buildAdjacency (\<lambda>i. i \<in> rq) (Edges d)
            (zeroAll (filter (\<lambda>node. ID node \<in> rq) (Nodes d)) (\<lambda>_. 0), \<lambda>_. [])")
        define st1 where "st1 = runHooks SetupHook 0 (SetupFns d)
            \<lparr>inDegree = inDeg, completed = {}, ctx = Ctx d, trace = []\<rparr>"
        obtain r' st' where w: "runWaves d (\<lambda>i. i \<in> rq) (\<lambda>finished. rq - finished)
            outEdges st1 = (r', st')"
          by (cases "runWaves d (\<lambda>i. i \<in> rq) (\<lambda>finished. rq - finished) outEdges st1")
        from u Some b w have "r' = Some (UnknownNode i)"
          by (auto simp: RunTo_def Let_def st1_def rq_def split: option.splits)
        with w have "runWaves d (\<lambda>i. i \<in> rq) (\<lambda>finished. rq - finished)
            outEdges st1 = (Some (UnknownNode i), st')"
          by simp
        from runWaves_error[OF this] show False by simp
      qed
      with Some show ?thesis by simp
    qed
  qed
  from 1 2 3 4 5 show ?thesis by (intro conjI) (elim conjE; assumption)+
qed

text \<open>
  The graph with A registered twice: the lookup of A and the edge A\<rightarrow>B use the node at
  address 0, and a second B does not change the lookup of B.
\<close>

theorem first_registered_node_wins_witness:
  "built twins \<and>
   map (\<lambda>n. (ref n, ID n)) (Nodes twins) = [(0, ''A''), (1, ''A''), (2, ''B'')] \<and>
   map_option ref (findNodeByID twins ''A'') = Some 0 \<and>
   map (\<lambda>e. (ref (Left e), ref (Right e))) (Edges twins) = [(0, 2)] \<and>
   list_all (\<lambda>e. findNodeByID twins (ID (Left e)) = Some (Left e) \<and>
      findNodeByID twins (ID (Right e)) = Some (Right e)) (Edges twins) \<and>
   map (\<lambda>n. (ref n, ID n)) (Nodes (snd (AddNode ''B'' id twins)))
     = [(0, ''A''), (1, ''A''), (2, ''B''), (3, ''B'')] \<and>
   map_option ref (findNodeByID (snd (AddNode ''B'' id twins)) ''B'') = Some 2"
proof -
  have b: "built twins"
    unfolding twins_def by (intro built.intros)
  have n: "map (\<lambda>n. (ref n, ID n)) (Nodes twins) = [(0, ''A''), (1, ''A''), (2, ''B'')]"
    by (simp add: build_simps)
  have f: "map_option ref (findNodeByID twins ''A'') = Some 0"
    by (simp add: build_simps)
  have e: "map (\<lambda>e. (ref (Left e), ref (Right e))) (Edges twins) = [(0, 2)]"
    by (simp add: build_simps)
  have n': "map (\<lambda>n. (ref n, ID n)) (Nodes (snd (AddNode ''B'' id twins)))
     = [(0, ''A''), (1, ''A''), (2, ''B''), (3, ''B'')]"
    by (simp add: build_simps)
  have f': "map_option ref (findNodeByID (snd (AddNode ''B'' id twins)) ''B'') = Some 2"
    by (simp add: build_simps)
  from first_registered_node_wins [OF b, of "''B''" id]
  have "\<forall>e \<in> set (Edges twins).
      findNodeByID twins (ID (Left e)) = Some (Left e) \<and>
      findNodeByID twins (ID (Right e)) = Some (Right e)"
    by (elim conjE)
  then have "list_all (\<lambda>e. findNodeByID twins (ID (Left e)) = Some (Left e) \<and>
      findNodeByID twins (ID (Right e)) = Some (Right e)) (Edges twins)"
    by (simp only: list_all_iff)
  with b n f e n' f' show ?thesis by (intro conjI)
qed

section \<open>The dependency closure is the set of ancestors\<close>

lemma edge_rel_rel_of: "edge_rel d = rel_of (Edges d)"
  by (simp add: edge_rel_def edge_ids_def rel_of_def)

lemma rel_ofI: "e \<in> set es \<Longrightarrow> (ID (Left e), ID (Right e)) \<in> rel_of es"
  by (auto simp: rel_of_def)

lemma collectDependencies_sound_closed:
  "insert nodeID collected \<subseteq> collectDependencies es nodeID collected \<and>
   collectDependencies es nodeID collected
     \<subseteq> insert nodeID collected \<union> {x. (x, nodeID) \<in> (rel_of es)\<^sup>+} \<and>
   (\<forall>y \<in> collectDependencies es nodeID collected - collected.
      \<forall>e \<in> set es. ID (Right e) = y \<longrightarrow>
        ID (Left e) \<in> collectDependencies es nodeID collected)"
  "set rest \<subseteq> set es \<longrightarrow>
   collected \<subseteq> collectDependencies_range es rest nodeID collected \<and>
   collectDependencies_range es rest nodeID collected
     \<subseteq> collected \<union> {x. (x, nodeID) \<in> (rel_of es)\<^sup>+} \<and>
   (\<forall>y \<in> collectDependencies_range es rest nodeID collected - collected.
      \<forall>e \<in> set es. ID (Right e) = y \<longrightarrow>
        ID (Left e) \<in> collectDependencies_range es rest nodeID collected) \<and>
   (\<forall>e \<in> set rest. ID (Right e) = nodeID \<longrightarrow>
        ID (Left e) \<in> collectDependencies_range es rest nodeID collected)"
proof (induction es nodeID collected and es rest nodeID collected
    rule: collectDependencies_collectDependencies_range.induct)
  case (1 es nodeID collected)
  let ?R = "collectDependencies_range es es nodeID (insert nodeID collected)"
  from 1 have a: "insert nodeID collected \<subseteq> ?R"
    and b: "?R \<subseteq> insert nodeID collected \<union> {x. (x, nodeID) \<in> (rel_of es)\<^sup>+}"
    and c: "\<forall>y \<in> ?R - insert nodeID collected.
      \<forall>e \<in> set es. ID (Right e) = y \<longrightarrow> ID (Left e) \<in> ?R"
    and d: "\<forall>e \<in> set es. ID (Right e) = nodeID \<longrightarrow> ID (Left e) \<in> ?R"
    by simp_all
  have "\<forall>y \<in> ?R - collected. \<forall>e \<in> set es. ID (Right e) = y \<longrightarrow> ID (Left e) \<in> ?R"
  proof (intro ballI impI)
    fix y e assume y: "y \<in> ?R - collected" and e: "e \<in> set es" "ID (Right e) = y"
    show "ID (Left e) \<in> ?R"
    proof (cases "y = nodeID")
      case True
      with d e show ?thesis by simp
    next
      case False
      with y have "y \<in> ?R - insert nodeID collected" by simp
      with c e show ?thesis by blast
    qed
  qed
  with a b show ?case by simp
next
  case (2 es nodeID collected)
  show ?case by simp
next
  case (3 es edge rest nodeID collected)
  show ?case
  proof
    assume sub: "set (edge # rest) \<subseteq> set es"
    then have sub': "set rest \<subseteq> set es" and edge: "edge \<in> set es" by simp_all
    show "collected \<subseteq> collectDependencies_range es (edge # rest) nodeID collected \<and>
      collectDependencies_range es (edge # rest) nodeID collected
        \<subseteq> collected \<union> {x. (x, nodeID) \<in> (rel_of es)\<^sup>+} \<and>
      (\<forall>y \<in> collectDependencies_range es (edge # rest) nodeID collected - collected.
        \<forall>e \<in> set es. ID (Right e) = y \<longrightarrow>
          ID (Left e) \<in> collectDependencies_range es (edge # rest) nodeID collected) \<and>
      (\<forall>e \<in> set (edge # rest). ID (Right e) = nodeID \<longrightarrow>
          ID (Left e) \<in> collectDependencies_range es (edge # rest) nodeID collected)"
    proof (cases "ID (Right edge) = nodeID \<and> ID (Left edge) \<notin> collected")
      case True
      let ?l = "ID (Left edge)"
      let ?c1 = "collectDependencies es ?l collected"
      let ?R = "collectDependencies_range es rest nodeID ?c1"
      have R: "collectDependencies_range es (edge # rest) nodeID collected = ?R"
        using True by simp
      from 3(1)[OF True] have a1: "insert ?l collected \<subseteq> ?c1"
        and b1: "?c1 \<subseteq> insert ?l collected \<union> {x. (x, ?l) \<in> (rel_of es)\<^sup>+}"
        and c1: "\<forall>y \<in> ?c1 - collected. \<forall>e \<in> set es. ID (Right e) = y \<longrightarrow> ID (Left e) \<in> ?c1"
        by simp_all
      from 3(2)[OF True] sub' have a2: "?c1 \<subseteq> ?R"
        and b2: "?R \<subseteq> ?c1 \<union> {x. (x, nodeID) \<in> (rel_of es)\<^sup>+}"
        and c2: "\<forall>y \<in> ?R - ?c1. \<forall>e \<in> set es. ID (Right e) = y \<longrightarrow> ID (Left e) \<in> ?R"
        and d2: "\<forall>e \<in> set rest. ID (Right e) = nodeID \<longrightarrow> ID (Left e) \<in> ?R"
        by simp_all
      from edge True have ln: "(?l, nodeID) \<in> (rel_of es)\<^sup>+"
        using rel_ofI[OF edge] by auto
      have A: "collected \<subseteq> ?R" using a1 a2 by blast
      have B: "?R \<subseteq> collected \<union> {x. (x, nodeID) \<in> (rel_of es)\<^sup>+}"
      proof
        fix x assume "x \<in> ?R"
        with b2 consider "x \<in> ?c1" | "(x, nodeID) \<in> (rel_of es)\<^sup>+" by blast
        then show "x \<in> collected \<union> {x. (x, nodeID) \<in> (rel_of es)\<^sup>+}"
        proof cases
          case 1
          with b1 consider "x = ?l" | "x \<in> collected" | "(x, ?l) \<in> (rel_of es)\<^sup>+" by blast
          then show ?thesis
          proof cases
            case 1 with ln show ?thesis by simp
          next
            case 2 then show ?thesis by simp
          next
            case 3 from this ln have "(x, nodeID) \<in> (rel_of es)\<^sup>+" by (rule trancl_trans)
            then show ?thesis by simp
          qed
        next
          case 2 then show ?thesis by simp
        qed
      qed
      have C: "\<forall>y \<in> ?R - collected. \<forall>e \<in> set es. ID (Right e) = y \<longrightarrow> ID (Left e) \<in> ?R"
      proof (intro ballI impI)
        fix y e assume y: "y \<in> ?R - collected" and e: "e \<in> set es" "ID (Right e) = y"
        show "ID (Left e) \<in> ?R"
        proof (cases "y \<in> ?c1")
          case True
          with y have "y \<in> ?c1 - collected" by simp
          with c1 e have "ID (Left e) \<in> ?c1" by blast
          with a2 show ?thesis by blast
        next
          case False
          with y have "y \<in> ?R - ?c1" by simp
          with c2 e show ?thesis by blast
        qed
      qed
      have D: "\<forall>e \<in> set (edge # rest). ID (Right e) = nodeID \<longrightarrow> ID (Left e) \<in> ?R"
        using d2 a1 a2 by auto
      from A B C D show ?thesis unfolding R by (intro conjI)
    next
      case False
      let ?R = "collectDependencies_range es rest nodeID collected"
      have R: "collectDependencies_range es (edge # rest) nodeID collected = ?R"
        using False by auto
      from 3(3)[OF False] sub' have a2: "collected \<subseteq> ?R"
        and b2: "?R \<subseteq> collected \<union> {x. (x, nodeID) \<in> (rel_of es)\<^sup>+}"
        and c2: "\<forall>y \<in> ?R - collected. \<forall>e \<in> set es. ID (Right e) = y \<longrightarrow> ID (Left e) \<in> ?R"
        and d2: "\<forall>e \<in> set rest. ID (Right e) = nodeID \<longrightarrow> ID (Left e) \<in> ?R"
        by simp_all
      have D: "\<forall>e \<in> set (edge # rest). ID (Right e) = nodeID \<longrightarrow> ID (Left e) \<in> ?R"
        using d2 a2 False by auto
      from a2 b2 c2 D show ?thesis unfolding R by (intro conjI)
    qed
  qed
qed

lemma collectDependencies_closure:
  "collectDependencies es target {} = {x. (x, target) \<in> (rel_of es)\<^sup>*}"
proof (intro equalityI subsetI)
  fix x assume "x \<in> collectDependencies es target {}"
  with collectDependencies_sound_closed(1)[of target "{}" es]
  have "x = target \<or> (x, target) \<in> (rel_of es)\<^sup>+" by blast
  then show "x \<in> {x. (x, target) \<in> (rel_of es)\<^sup>*}" by auto
next
  fix x assume "x \<in> {x. (x, target) \<in> (rel_of es)\<^sup>*}"
  then have "(x, target) \<in> (rel_of es)\<^sup>*" by simp
  then show "x \<in> collectDependencies es target {}"
  proof (induction rule: converse_rtrancl_induct)
    case base
    with collectDependencies_sound_closed(1)[of target "{}" es] show ?case by blast
  next
    case (step y z)
    from step(1) obtain e where "e \<in> set es" "ID (Left e) = y" "ID (Right e) = z"
      by (auto simp: rel_of_def)
    with step(3) collectDependencies_sound_closed(1)[of target "{}" es] show ?case by blast
  qed
qed

section \<open>The scheduling loop\<close>

lemma zeroAll_zero: "zeroAll ns (\<lambda>_. 0) = (\<lambda>_. 0)"
proof (induction ns)
  case Nil
  show ?case by simp
next
  case (Cons n ns)
  have "(\<lambda>_. 0::int)(ID n := 0) = (\<lambda>_. 0)" by (simp add: fun_eq_iff)
  with Cons show ?case by simp
qed

lemma buildAdjacency_result:
  "buildAdjacency required es (inDeg, outEdges) =
     (\<lambda>n. inDeg n + int (length (filter (\<lambda>e. required (ID (Left e)) \<and> required (ID (Right e)) \<and>
              ID (Right e) = n) es)),
      \<lambda>l. outEdges l @ outOf required es l)"
proof (induction es arbitrary: inDeg outEdges)
  case Nil
  show ?case by (simp add: outOf_def)
next
  case (Cons e es)
  show ?case
  proof (cases "required (ID (Left e)) \<and> required (ID (Right e))")
    case True
    then show ?thesis
      by (simp add: Cons outOf_def fun_eq_iff)
  next
    case False
    then have "buildAdjacency required (e # es) (inDeg, outEdges)
        = buildAdjacency required es (inDeg, outEdges)"
      by auto
    with False show ?thesis
      by (auto simp: Cons outOf_def fun_eq_iff)
  qed
qed

lemma decrementAll_result:
  "decrementAll deps inDeg n = inDeg n - int (length (filter (\<lambda>x. ID x = n) deps))"
  by (induction deps arbitrary: inDeg) auto

lemma pending_insert:
  "a \<notin> finished \<Longrightarrow>
     int (pending required es (insert a finished) n) =
       int (pending required es finished n)
         - int (length (filter (\<lambda>x. ID x = n) (outOf required es a)))"
  by (induction es) (auto simp: pending_def outOf_def)

lemma runNode_counts_pending:
  assumes "counts_pending required es st" "ID a \<notin> completed st"
  shows "counts_pending required es (runNode d (outOf required es) a st)"
  using assms
  by (simp add: counts_pending_def runNode_def decrementAll_result pending_insert)

lemma fold_runNode_counts_pending:
  "counts_pending required es st \<Longrightarrow> distinct (map ID ns) \<Longrightarrow>
     ID ` set ns \<inter> completed st = {} \<Longrightarrow>
     counts_pending required es (fold (runNode d (outOf required es)) ns st)"
proof (induction ns arbitrary: st)
  case Nil
  then show ?case by simp
next
  case (Cons a ns)
  from Cons.prems have "counts_pending required es (runNode d (outOf required es) a st)"
    by (intro runNode_counts_pending) auto
  moreover from Cons.prems have "ID ` set ns \<inter> completed (runNode d (outOf required es) a st) = {}"
    by auto
  ultimately show ?case using Cons.IH Cons.prems(2) by simp
qed

lemma runWave_counts_pending:
  "counts_pending required es st \<Longrightarrow> distinct (map ID ns) \<Longrightarrow>
     ID ` set ns \<inter> completed st = {} \<Longrightarrow>
     counts_pending required es (runWave d (outOf required es) ns st)"
  using fold_runNode_counts_pending[of required es st ns d]
  by (simp add: runWave_def Let_def counts_pending_def)

lemma deps_first_append:
  "deps_first es finished (ws @ [w]) =
     (deps_first es finished ws \<and>
      (\<forall>n \<in> set w. \<forall>e \<in> set es. ID (Right e) = ID n \<longrightarrow>
         ID (Left e) \<in> finished \<union> ID ` set (concat ws)))"
  by (induction ws arbitrary: finished) (auto simp: Un_assoc image_Un)

lemma available_distinct:
  "distinct (map ID (Nodes d)) \<Longrightarrow> distinct (map ID (availableNodes d required st))"
  by (simp add: availableNodes_def distinct_map_filter)

text \<open>Progress: in an acyclic graph some eligible node that has not run is free to run.\<close>

lemma available_nonempty:
  assumes acyc: "acyclic (rel_of (Edges d))"
    and reg: "\<forall>e \<in> set (Edges d). ID (Left e) \<in> ID ` set (Nodes d)"
    and cnt: "counts_pending required (Edges d) st"
    and left: "m \<in> set (Nodes d)" "required (ID m)" "ID m \<notin> completed st"
  shows "availableNodes d required st \<noteq> []"
proof -
  let ?S = "{i \<in> ID ` set (Nodes d). required i \<and> i \<notin> completed st}"
  have "finite (rel_of (Edges d))" by (simp add: rel_of_def)
  from this acyc have "wf (rel_of (Edges d))" by (rule finite_acyclic_wf)
  moreover from left have "ID m \<in> ?S" by simp
  ultimately obtain z where z: "z \<in> ?S"
    and zmin: "\<And>y. (y, z) \<in> rel_of (Edges d) \<Longrightarrow> y \<notin> ?S"
    by (rule wfE_min) blast
  have "filter (\<lambda>e. required (ID (Left e)) \<and> required (ID (Right e)) \<and>
        ID (Right e) = z \<and> ID (Left e) \<notin> completed st) (Edges d) = []"
  proof (rule ccontr)
    assume "\<not> ?thesis"
    then obtain e where e: "e \<in> set (Edges d)" "required (ID (Left e))" "ID (Right e) = z"
        "ID (Left e) \<notin> completed st"
      by (auto simp: filter_empty_conv)
    with reg have "ID (Left e) \<in> ?S" by simp
    moreover from e have "(ID (Left e), z) \<in> rel_of (Edges d)"
      using rel_ofI[of e "Edges d"] by simp
    ultimately show False using zmin by blast
  qed
  then have "pending required (Edges d) (completed st) z = 0"
    by (simp add: pending_def)
  with cnt have "inDegree st z = 0" by (simp add: counts_pending_def)
  moreover from z obtain n where "n \<in> set (Nodes d)" "ID n = z" by auto
  ultimately have "n \<in> set (availableNodes d required st)"
    using z by (simp add: availableNodes_def)
  then show ?thesis by auto
qed

lemma mset_filter_disjoint:
  "\<forall>x \<in> set xs. \<not> (P x \<and> Q x) \<Longrightarrow>
     mset (filter P xs) + mset (filter Q xs) = mset (filter (\<lambda>x. P x \<or> Q x) xs)"
  by (induction xs) auto

lemma available_ids:
  "n \<in> set (Nodes d) \<Longrightarrow>
     (ID n \<in> ID ` set (availableNodes d required st)) =
     (required (ID n) \<and> ID n \<notin> completed st \<and> inDegree st (ID n) = 0)"
  by (auto simp: availableNodes_def)

lemma runWave_sched_inv:
  assumes dist: "distinct (map ID (Nodes d))"
    and closed: "\<forall>e \<in> set (Edges d). required (ID (Right e)) \<longrightarrow> required (ID (Left e))"
    and inv: "sched_inv d required st"
  shows "sched_inv d required
     (runWave d (outOf required (Edges d)) (availableNodes d required st) st)"
proof -
  let ?av = "availableNodes d required st"
  let ?st = "runWave d (outOf required (Edges d)) ?av st"
  from inv have cnt: "counts_pending required (Edges d) st"
    and sub: "completed st \<subseteq> {i. required i} \<inter> ID ` set (Nodes d)"
    and ms: "mset (executed (trace st)) = mset (filter (\<lambda>n. ID n \<in> completed st) (Nodes d))"
    and df: "deps_first (Edges d) {} (waves (trace st))"
    by (simp_all add: sched_inv_def)
  have disj: "ID ` set ?av \<inter> completed st = {}"
    by (auto simp: availableNodes_def)
  have 1: "counts_pending required (Edges d) ?st"
    using cnt available_distinct[OF dist] disj by (rule runWave_counts_pending)
  have 2: "completed ?st \<subseteq> {i. required i} \<inter> ID ` set (Nodes d)"
    using sub by (auto simp: availableNodes_def)
  have tr: "trace ?st = trace st @ [Wave ?av]"
    by (rule runWave_trace)
  have 3: "mset (executed (trace ?st)) = mset (filter (\<lambda>n. ID n \<in> completed ?st) (Nodes d))"
  proof -
    have "executed (trace ?st) = executed (trace st) @ ?av"
      by (simp add: tr executed_def waves_append)
    then have "mset (executed (trace ?st)) = mset (executed (trace st)) + mset ?av"
      by simp
    also have "\<dots> = mset (filter (\<lambda>n. ID n \<in> completed st) (Nodes d))
        + mset (filter (\<lambda>n. required (ID n) \<and> ID n \<notin> completed st \<and> inDegree st (ID n) = 0)
            (Nodes d))"
      by (simp only: ms availableNodes_def)
    also have "\<dots> = mset (filter (\<lambda>n. ID n \<in> completed st \<or>
        (required (ID n) \<and> ID n \<notin> completed st \<and> inDegree st (ID n) = 0)) (Nodes d))"
      by (rule mset_filter_disjoint) simp
    also have "filter (\<lambda>n. ID n \<in> completed st \<or>
        (required (ID n) \<and> ID n \<notin> completed st \<and> inDegree st (ID n) = 0)) (Nodes d)
        = filter (\<lambda>n. ID n \<in> completed ?st) (Nodes d)"
      by (rule filter_cong) (simp_all add: available_ids)
    finally show ?thesis .
  qed
  have ids: "ID ` set (concat (waves (trace st))) = completed st"
  proof -
    have "set (concat (waves (trace st))) = set_mset (mset (executed (trace st)))"
      by (simp add: executed_def)
    also have "\<dots> = {n \<in> set (Nodes d). ID n \<in> completed st}"
      by (simp add: ms)
    finally show ?thesis using sub by auto
  qed
  have 4: "deps_first (Edges d) {} (waves (trace ?st))"
  proof -
    have "\<forall>n \<in> set ?av. \<forall>e \<in> set (Edges d). ID (Right e) = ID n \<longrightarrow>
        ID (Left e) \<in> completed st"
    proof (intro ballI impI)
      fix n e assume n: "n \<in> set ?av" and e: "e \<in> set (Edges d)" "ID (Right e) = ID n"
      from n have rq: "required (ID n)" and z: "inDegree st (ID n) = 0"
        by (simp_all add: availableNodes_def)
      with cnt have "filter (\<lambda>e. required (ID (Left e)) \<and> required (ID (Right e)) \<and>
          ID (Right e) = ID n \<and> ID (Left e) \<notin> completed st) (Edges d) = []"
        by (simp add: counts_pending_def pending_def)
      moreover from closed e rq have "required (ID (Left e))" by simp
      ultimately show "ID (Left e) \<in> completed st"
        using e rq by (auto simp: filter_empty_conv)
    qed
    with df ids show ?thesis
      by (simp add: tr waves_append deps_first_append)
  qed
  from 1 2 3 4 show ?thesis by (simp add: sched_inv_def)
qed

lemma runWaves_completes:
  assumes "distinct (map ID (Nodes d))"
    and "\<forall>e \<in> set (Edges d). ID (Left e) \<in> ID ` set (Nodes d)"
    and "acyclic (rel_of (Edges d))"
    and "\<forall>e \<in> set (Edges d). required (ID (Right e)) \<longrightarrow> required (ID (Left e))"
    and "\<forall>finished. (\<forall>n \<in> set (Nodes d). required (ID n) \<longrightarrow> ID n \<in> finished)
           \<longrightarrow> remainingOf finished = {}"
    and "outEdges = outOf required (Edges d)"
    and "sched_inv d required st"
  shows "\<exists>st'. runWaves d required remainingOf outEdges st = (None, st') \<and>
     sched_inv d required st' \<and>
     (\<forall>n \<in> set (Nodes d). required (ID n) \<longrightarrow> ID n \<in> completed st')"
  using assms
proof (induction d required remainingOf outEdges st rule: runWaves.induct)
  case (1 d required remainingOf outEdges st)
  show ?case
  proof (cases "availableNodes d required st = []")
    case True
    have all: "\<forall>n \<in> set (Nodes d). required (ID n) \<longrightarrow> ID n \<in> completed st"
    proof (intro ballI impI)
      fix n assume n: "n \<in> set (Nodes d)" "required (ID n)"
      show "ID n \<in> completed st"
      proof (rule ccontr)
        assume c: "ID n \<notin> completed st"
        from 1(8) have cnt: "counts_pending required (Edges d) st"
          by (simp add: sched_inv_def)
        from available_nonempty[OF 1(4) 1(3) cnt n c] True show False
          by simp
      qed
    qed
    with 1(6) have "remainingOf (completed st) = {}" by simp
    with True have "runWaves d required remainingOf outEdges st = (None, st)"
      by (simp add: runWaves.simps[of d required remainingOf outEdges st] Let_def)
    with all 1(8) have "runWaves d required remainingOf outEdges st = (None, st) \<and>
        sched_inv d required st \<and>
        (\<forall>n \<in> set (Nodes d). required (ID n) \<longrightarrow> ID n \<in> completed st)"
      by simp
    then show ?thesis by (rule exI)
  next
    case False
    let ?st = "runWave d outEdges (availableNodes d required st) st"
    have run: "runWaves d required remainingOf outEdges st
        = runWaves d required remainingOf outEdges ?st"
      using False by (simp add: runWaves.simps[of d required remainingOf outEdges st] Let_def)
    have "sched_inv d required ?st"
      unfolding 1(7) by (rule runWave_sched_inv[OF 1(2) 1(5) 1(8)])
    from 1(1)[OF refl False 1(2) 1(3) 1(4) 1(5) 1(6) 1(7) this] run
    show ?thesis by simp
  qed
qed

lemma built_edges_registered:
  assumes "built d" "e \<in> set (Edges d)"
  shows "ID (Left e) \<in> ID ` set (Nodes d)"
proof -
  from built_invariant[OF assms(1)] assms(2)
  have "findNode (Nodes d) (ID (Left e)) = Some (Left e)"
    by (simp add: ends_found_def)
  then have "findNode (Nodes d) (ID (Left e)) \<noteq> None" by simp
  then show ?thesis by (simp add: findNode_None)
qed

lemma initial_sched_inv:
  assumes "fst (buildAdjacency required (Edges d) (zeroAll ns (\<lambda>_. 0), \<lambda>_. [])) = inDeg"
  shows "sched_inv d required
     (runHooks SetupHook 0 fns \<lparr>inDegree = inDeg, completed = {}, ctx = c, trace = []\<rparr>)"
proof -
  from assms have "\<forall>n. inDeg n = int (pending required (Edges d) {} n)"
    by (auto simp: buildAdjacency_result zeroAll_zero pending_def)
  then show ?thesis
    by (simp add: sched_inv_def counts_pending_def runHooks_fields executed_def)
qed

lemma final_executed:
  assumes "sched_inv d required st'"
    and "\<forall>n \<in> set (Nodes d). required (ID n) \<longrightarrow> ID n \<in> completed st'"
  shows "mset (executed (trace (runHooks TearDownHook 0 fns st')))
      = mset (filter (\<lambda>n. required (ID n)) (Nodes d)) \<and>
    deps_first (Edges d) {} (waves (trace (runHooks TearDownHook 0 fns st')))"
proof -
  have w: "waves (trace (runHooks TearDownHook 0 fns st')) = waves (trace st')"
    by (simp add: runHooks_fields waves_append)
  from assms(1) have "mset (executed (trace st'))
      = mset (filter (\<lambda>n. ID n \<in> completed st') (Nodes d))"
    and sub: "completed st' \<subseteq> {i. required i} \<inter> ID ` set (Nodes d)"
    and df: "deps_first (Edges d) {} (waves (trace st'))"
    by (simp_all add: sched_inv_def)
  moreover have "filter (\<lambda>n. ID n \<in> completed st') (Nodes d)
      = filter (\<lambda>n. required (ID n)) (Nodes d)"
    using assms(2) sub by (intro filter_cong) auto
  ultimately show ?thesis by (simp add: w executed_def)
qed

text \<open>
  C4 says that on every acyclic graph a full run executes every registered node exactly
  once, each after its dependencies. On the graph with the identifier A registered
  twice, B, and the edge A\<rightarrow>B, which is acyclic, both nodes A run in the first wave and
  each decrements the counter of B, from 1 to -1; B is never available, the run ends
  with the fatal report, and B is not executed.
\<close>

theorem RunTests_duplicate_identifier:
  "built twins \<and> acyclic (edge_rel twins) \<and>
   map (\<lambda>n. (ref n, ID n)) (Nodes twins) = [(0, ''A''), (1, ''A''), (2, ''B'')] \<and>
   fst (RunTests twins) = Some (DependencyCycle {''B''}) \<and>
   map (\<lambda>n. (ref n, ID n)) (executed (trace (snd (RunTests twins)))) = [(0, ''A''), (1, ''A'')]"
proof -
  have b: "built twins"
    unfolding twins_def by (intro built.intros)
  have "edge_rel twins = {(''A'', ''B'')}"
    by (simp add: edge_rel_def build_simps)
  then have a: "acyclic (edge_rel twins)"
    by (intro acyclicI_order[where f = rank_abcd]) (auto simp: rank_abcd_def)
  have r: "map (\<lambda>n. (ref n, ID n)) (Nodes twins) = [(0, ''A''), (1, ''A''), (2, ''B'')] \<and>
   fst (RunTests twins) = Some (DependencyCycle {''B''}) \<and>
   map (\<lambda>n. (ref n, ID n)) (executed (trace (snd (RunTests twins)))) = [(0, ''A''), (1, ''A'')]"
    by (auto simp: build_simps run_simps)
  from b a r show ?thesis by (intro conjI) (elim conjE; assumption)+
qed

text \<open>
  C4, amended by the condition that the node identifiers are pairwise distinct: on
  every graph built through the interface whose identifiers are pairwise distinct and
  whose edges are acyclic, \<^verbatim>\<open>RunTests\<close> ends without a fatal report, the nodes executed
  are the registered nodes, each exactly once, and in every wave each node has the left
  end of every edge into it in an earlier wave, so that no node starts before all its
  dependencies have completed.
\<close>

theorem RunTests_runs_all_in_order:
  assumes "built d" and "distinct (map ID (Nodes d))" and "acyclic (edge_rel d)"
  shows "\<exists>st. RunTests d = (None, st) \<and>
     mset (executed (trace st)) = mset (Nodes d) \<and>
     deps_first (Edges d) {} (waves (trace st))"
proof -
  obtain inDeg outEdges where b: "buildAdjacency (\<lambda>_. True) (Edges d)
      (zeroAll (Nodes d) (\<lambda>_. 0), \<lambda>_. []) = (inDeg, outEdges)"
    by (cases "buildAdjacency (\<lambda>_. True) (Edges d) (zeroAll (Nodes d) (\<lambda>_. 0), \<lambda>_. [])")
  then have oe: "outEdges = outOf (\<lambda>_. True) (Edges d)"
    by (simp add: buildAdjacency_result)
  define st0 where "st0 = \<lparr>inDegree = inDeg, completed = {}, ctx = Ctx d, trace = []\<rparr>"
  from b have "sched_inv d (\<lambda>_. True)
      (runHooks SetupHook 0 [] \<lparr>inDegree = inDeg, completed = {}, ctx = Ctx d, trace = []\<rparr>)"
    by (intro initial_sched_inv[where ns = "Nodes d"]) simp
  then have inv: "sched_inv d (\<lambda>_. True) st0" by (simp add: st0_def)
  have reg: "\<forall>e \<in> set (Edges d). ID (Left e) \<in> ID ` set (Nodes d)"
    using built_edges_registered[OF assms(1)] by blast
  have acyc: "acyclic (rel_of (Edges d))"
    using assms(3) by (simp add: edge_rel_rel_of)
  have rem: "\<forall>finished. (\<forall>n \<in> set (Nodes d). True \<longrightarrow> ID n \<in> finished) \<longrightarrow>
      set (filter (\<lambda>i. i \<notin> finished) (map ID (Nodes d))) = {}"
    by auto
  from runWaves_completes[OF assms(2) reg acyc _ rem oe inv]
  obtain st' where w: "runWaves d (\<lambda>_. True)
      (\<lambda>finished. set (filter (\<lambda>i. i \<notin> finished) (map ID (Nodes d)))) outEdges st0 = (None, st')"
    and inv': "sched_inv d (\<lambda>_. True) st'"
    and all: "\<forall>n \<in> set (Nodes d). True \<longrightarrow> ID n \<in> completed st'"
    by auto
  from b w have "RunTests d = (None, runHooks TearDownHook 0 (TearDownFns d) st')"
    by (simp add: RunTests_def Let_def st0_def)
  with final_executed[OF inv' all, of "TearDownFns d"]
  have "RunTests d = (None, runHooks TearDownHook 0 (TearDownFns d) st') \<and>
     mset (executed (trace (runHooks TearDownHook 0 (TearDownFns d) st'))) = mset (Nodes d) \<and>
     deps_first (Edges d) {} (waves (trace (runHooks TearDownHook 0 (TearDownFns d) st')))"
    by simp
  then show ?thesis by (rule exI)
qed

text \<open>
  The graph A\<rightarrow>B, B\<rightarrow>C, A\<rightarrow>D: the waves are A, then B and D, then C.
\<close>

theorem RunTests_runs_all_in_order_witness:
  "built fan_abcd \<and> distinct (map ID (Nodes fan_abcd)) \<and> acyclic (edge_rel fan_abcd) \<and>
   edge_ids fan_abcd = [(''A'', ''B''), (''B'', ''C''), (''A'', ''D'')] \<and>
   (\<exists>st. RunTests fan_abcd = (None, st) \<and>
      mset (executed (trace st)) = mset (Nodes fan_abcd) \<and>
      deps_first (Edges fan_abcd) {} (waves (trace st))) \<and>
   map (map ID) (waves (trace (snd (RunTests fan_abcd)))) = [[''A''], [''B'', ''D''], [''C'']]"
proof -
  have b: "built fan_abcd"
    unfolding fan_abcd_def three_nodes_def by (intro built.intros)
  have d: "distinct (map ID (Nodes fan_abcd))"
    by (simp add: fan_abcd_def build_simps)
  have e: "edge_ids fan_abcd = [(''A'', ''B''), (''B'', ''C''), (''A'', ''D'')]"
    by (simp add: fan_abcd_def build_simps)
  then have "edge_rel fan_abcd = {(''A'', ''B''), (''B'', ''C''), (''A'', ''D'')}"
    by (simp add: edge_rel_def)
  then have a: "acyclic (edge_rel fan_abcd)"
    by (intro acyclicI_order[where f = rank_abcd]) (auto simp: rank_abcd_def)
  have w: "map (map ID) (waves (trace (snd (RunTests fan_abcd))))
      = [[''A''], [''B'', ''D''], [''C'']]"
    by (simp add: fan_abcd_def build_simps run_simps)
  from RunTests_runs_all_in_order[OF b d a] b d a e w show ?thesis by (intro conjI)
qed

text \<open>
  C3 says that on every acyclic graph \<^verbatim>\<open>RunTo(X)\<close> executes exactly the dependency closure
  of a registered X, each node once. On the graph with A registered twice, B, and the
  edge A\<rightarrow>B, \<^verbatim>\<open>RunTo("B")\<close> executes both nodes A, ends with the fatal report, and does
  not execute B, the target.
\<close>

theorem RunTo_duplicate_identifier:
  "built twins \<and> acyclic (edge_rel twins) \<and> ''B'' \<in> ID ` set (Nodes twins) \<and>
   map (\<lambda>n. (ref n, ID n)) (Nodes twins) = [(0, ''A''), (1, ''A''), (2, ''B'')] \<and>
   edge_ids twins = [(''A'', ''B'')] \<and>
   fst (RunTo ''B'' twins) = Some (DependencyCycle {''B''}) \<and>
   map (\<lambda>n. (ref n, ID n)) (executed (trace (snd (RunTo ''B'' twins)))) = [(0, ''A''), (1, ''A'')]"
proof -
  have b: "built twins"
    unfolding twins_def by (intro built.intros)
  have "edge_rel twins = {(''A'', ''B'')}"
    by (simp add: edge_rel_def build_simps)
  then have a: "acyclic (edge_rel twins)"
    by (intro acyclicI_order[where f = rank_abcd]) (auto simp: rank_abcd_def)
  have r: "''B'' \<in> ID ` set (Nodes twins) \<and>
   map (\<lambda>n. (ref n, ID n)) (Nodes twins) = [(0, ''A''), (1, ''A''), (2, ''B'')] \<and>
   edge_ids twins = [(''A'', ''B'')] \<and>
   fst (RunTo ''B'' twins) = Some (DependencyCycle {''B''}) \<and>
   map (\<lambda>n. (ref n, ID n)) (executed (trace (snd (RunTo ''B'' twins)))) = [(0, ''A''), (1, ''A'')]"
    by (auto simp: build_simps run_simps)
  from b a r show ?thesis by (intro conjI) (elim conjE; assumption)+
qed

text \<open>
  C3, amended by the condition that the node identifiers are pairwise distinct: on
  every graph built through the interface whose identifiers are pairwise distinct and
  whose edges are acyclic, and for every registered target, \<^verbatim>\<open>RunTo\<close> ends without a
  fatal report and the nodes executed are, each exactly once, the nodes from which the
  target can be reached along the edges (the target included), and no other node; they
  run in the order that the edges ask for.
\<close>

theorem RunTo_runs_closure:
  assumes "built d" and "distinct (map ID (Nodes d))" and "acyclic (edge_rel d)"
    and "target \<in> ID ` set (Nodes d)"
  shows "\<exists>st. RunTo target d = (None, st) \<and>
     mset (executed (trace st))
       = mset (filter (\<lambda>n. (ID n, target) \<in> (edge_rel d)\<^sup>*) (Nodes d)) \<and>
     deps_first (Edges d) {} (waves (trace st))"
proof -
  from assms(4) obtain tn where f: "findNodeByID d target = Some tn"
    by (cases "findNodeByID d target") (auto simp: findNodeByID_def findNode_None)
  define rq where "rq = collectDependencies (Edges d) target {}"
  have rq: "rq = {x. (x, target) \<in> (rel_of (Edges d))\<^sup>*}"
    unfolding rq_def by (rule collectDependencies_closure)
  obtain inDeg outEdges where b: "buildAdjacency (\<lambda>i. i \<in> rq) (Edges d)
      (zeroAll (filter (\<lambda>node. ID node \<in> rq) (Nodes d)) (\<lambda>_. 0), \<lambda>_. []) = (inDeg, outEdges)"
    by (cases "buildAdjacency (\<lambda>i. i \<in> rq) (Edges d)
      (zeroAll (filter (\<lambda>node. ID node \<in> rq) (Nodes d)) (\<lambda>_. 0), \<lambda>_. [])")
  then have oe: "outEdges = outOf (\<lambda>i. i \<in> rq) (Edges d)"
    by (simp add: buildAdjacency_result)
  define st1 where "st1 = runHooks SetupHook 0 (SetupFns d)
      \<lparr>inDegree = inDeg, completed = {}, ctx = Ctx d, trace = []\<rparr>"
  from b have inv: "sched_inv d (\<lambda>i. i \<in> rq) st1"
    unfolding st1_def
    by (intro initial_sched_inv[where ns = "filter (\<lambda>node. ID node \<in> rq) (Nodes d)"]) simp
  have reg: "\<forall>e \<in> set (Edges d). ID (Left e) \<in> ID ` set (Nodes d)"
    using built_edges_registered[OF assms(1)] by blast
  have acyc: "acyclic (rel_of (Edges d))"
    using assms(3) by (simp add: edge_rel_rel_of)
  have closed: "\<forall>e \<in> set (Edges d). ID (Right e) \<in> rq \<longrightarrow> ID (Left e) \<in> rq"
  proof (intro ballI impI)
    fix e assume "e \<in> set (Edges d)" "ID (Right e) \<in> rq"
    then have "(ID (Left e), ID (Right e)) \<in> rel_of (Edges d)"
      and "(ID (Right e), target) \<in> (rel_of (Edges d))\<^sup>*"
      by (simp_all add: rel_ofI rq)
    then show "ID (Left e) \<in> rq"
      unfolding rq by (simp add: converse_rtrancl_into_rtrancl)
  qed
  have rq_reg: "rq \<subseteq> ID ` set (Nodes d)"
  proof
    fix x assume "x \<in> rq"
    then have "(x, target) \<in> (rel_of (Edges d))\<^sup>*" by (simp add: rq)
    then show "x \<in> ID ` set (Nodes d)"
    proof (cases rule: converse_rtranclE)
      case base
      with assms(4) show ?thesis by simp
    next
      case (step y)
      then obtain e where "e \<in> set (Edges d)" "ID (Left e) = x"
        by (auto simp: rel_of_def)
      with reg show ?thesis by auto
    qed
  qed
  have rem: "\<forall>finished. (\<forall>n \<in> set (Nodes d). ID n \<in> rq \<longrightarrow> ID n \<in> finished) \<longrightarrow>
      rq - finished = {}"
    using rq_reg by auto
  from runWaves_completes[OF assms(2) reg acyc closed rem oe inv]
  obtain st' where w: "runWaves d (\<lambda>i. i \<in> rq) (\<lambda>finished. rq - finished) outEdges st1
      = (None, st')"
    and inv': "sched_inv d (\<lambda>i. i \<in> rq) st'"
    and all: "\<forall>n \<in> set (Nodes d). ID n \<in> rq \<longrightarrow> ID n \<in> completed st'"
    by auto
  from f b w have "RunTo target d = (None, runHooks TearDownHook 0 (TearDownFns d) st')"
    by (simp add: RunTo_def Let_def st1_def rq_def)
  with final_executed[OF inv' all, of "TearDownFns d"]
  have "RunTo target d = (None, runHooks TearDownHook 0 (TearDownFns d) st') \<and>
     mset (executed (trace (runHooks TearDownHook 0 (TearDownFns d) st')))
       = mset (filter (\<lambda>n. (ID n, target) \<in> (edge_rel d)\<^sup>*) (Nodes d)) \<and>
     deps_first (Edges d) {} (waves (trace (runHooks TearDownHook 0 (TearDownFns d) st')))"
    by (simp add: rq edge_rel_rel_of)
  then show ?thesis by (rule exI)
qed

text \<open>
  The chain A\<rightarrow>B\<rightarrow>C: \<^verbatim>\<open>RunTo("B")\<close> runs A, then B, and does not run C.
\<close>

theorem RunTo_runs_closure_witness:
  "built chain_abc \<and> distinct (map ID (Nodes chain_abc)) \<and> acyclic (edge_rel chain_abc) \<and>
   ''B'' \<in> ID ` set (Nodes chain_abc) \<and>
   (\<exists>st. RunTo ''B'' chain_abc = (None, st) \<and>
      mset (executed (trace st))
        = mset (filter (\<lambda>n. (ID n, ''B'') \<in> (edge_rel chain_abc)\<^sup>*) (Nodes chain_abc)) \<and>
      deps_first (Edges chain_abc) {} (waves (trace st))) \<and>
   map (map ID) (waves (trace (snd (RunTo ''B'' chain_abc)))) = [[''A''], [''B'']]"
proof -
  have b: "built chain_abc"
    unfolding chain_abc_def three_nodes_def by (intro built.intros)
  have d: "distinct (map ID (Nodes chain_abc))"
    by (simp add: build_simps)
  have "edge_rel chain_abc = {(''A'', ''B''), (''B'', ''C'')}"
    by (simp add: edge_rel_def build_simps)
  then have a: "acyclic (edge_rel chain_abc)"
    by (intro acyclicI_order[where f = rank_abcd]) (auto simp: rank_abcd_def)
  have t: "''B'' \<in> ID ` set (Nodes chain_abc)"
    by (simp add: build_simps)
  have w: "map (map ID) (waves (trace (snd (RunTo ''B'' chain_abc)))) = [[''A''], [''B'']]"
    by (simp add: build_simps run_simps)
  from RunTo_runs_closure[OF b d a t] b d a t w show ?thesis by (intro conjI)
qed

section \<open>What the cycle check decides\<close>

lemma rel_avoiding_mono: "V \<subseteq> W \<Longrightarrow> rel_avoiding es W \<subseteq> rel_avoiding es V"
  by (auto simp: rel_avoiding_def)

lemma path_leaves_start:
  assumes "(s, t) \<in> (rel_avoiding es V)\<^sup>*" "s \<noteq> t"
  shows "\<exists>r. (s, r) \<in> rel_avoiding es (insert s V) \<and> (r, t) \<in> (rel_avoiding es (insert s V))\<^sup>*"
  using assms
proof (induction rule: rtrancl_induct)
  case base
  then show ?case by simp
next
  case (step y z)
  from step(2,4) have yz: "(y, z) \<in> rel_avoiding es (insert s V)"
    by (auto simp: rel_avoiding_def)
  show ?case
  proof (cases "y = s")
    case True
    with yz have "(s, z) \<in> rel_avoiding es (insert s V) \<and>
        (z, z) \<in> (rel_avoiding es (insert s V))\<^sup>*"
      by simp
    then show ?thesis by (rule exI)
  next
    case False
    with step(3) obtain r where r: "(s, r) \<in> rel_avoiding es (insert s V)"
        "(r, y) \<in> (rel_avoiding es (insert s V))\<^sup>*"
      by auto
    from r(2) yz have "(r, z) \<in> (rel_avoiding es (insert s V))\<^sup>*"
      by (rule rtrancl_into_rtrancl)
    with r(1) have "(s, r) \<in> rel_avoiding es (insert s V) \<and>
        (r, z) \<in> (rel_avoiding es (insert s V))\<^sup>*"
      by simp
    then show ?thesis by (rule exI)
  qed
qed

text \<open>
  A call of \<^verbatim>\<open>detectCycle\<close> on an unmarked node returns true exactly when the target
  can be reached from the start along edges that enter no marked node, and a call that
  returns false leaves the marks as they were.
\<close>

lemma detectCycle_reaches:
  "ID start \<notin> visited \<longrightarrow>
     (\<not> fst (detectCycle es start target visited) \<longrightarrow>
        snd (detectCycle es start target visited) = visited) \<and>
     (fst (detectCycle es start target visited)
        = ((ID start, ID target) \<in> (rel_avoiding es visited)\<^sup>*))"
  "set rest \<subseteq> set es \<and> ID start \<in> visited \<longrightarrow>
     (\<not> fst (detectCycle_range es rest start target visited) \<longrightarrow>
        snd (detectCycle_range es rest start target visited) = visited - {ID start}) \<and>
     (fst (detectCycle_range es rest start target visited)
        = (\<exists>e \<in> set rest. ID (Left e) = ID start \<and> ID (Right e) \<notin> visited \<and>
             (ID (Right e), ID target) \<in> (rel_avoiding es visited)\<^sup>*))"
proof (induction es start target visited and es rest start target visited
    rule: detectCycle_detectCycle_range.induct)
  case (1 es start target visited)
  show ?case
  proof
    assume nv: "ID start \<notin> visited"
    show "(\<not> fst (detectCycle es start target visited) \<longrightarrow>
        snd (detectCycle es start target visited) = visited) \<and>
      (fst (detectCycle es start target visited)
        = ((ID start, ID target) \<in> (rel_avoiding es visited)\<^sup>*))"
    proof (cases "ID start = ID target")
      case True
      then show ?thesis by simp
    next
      case False
      let ?V = "insert (ID start) visited"
      let ?r = "detectCycle_range es es start target ?V"
      have r: "detectCycle es start target visited = ?r"
        using False by simp
      from 1[OF False] have s: "\<not> fst ?r \<longrightarrow> snd ?r = ?V - {ID start}"
        and f: "fst ?r = (\<exists>e \<in> set es. ID (Left e) = ID start \<and> ID (Right e) \<notin> ?V \<and>
             (ID (Right e), ID target) \<in> (rel_avoiding es ?V)\<^sup>*)"
        by simp_all
      have eq: "(\<exists>e \<in> set es. ID (Left e) = ID start \<and> ID (Right e) \<notin> ?V \<and>
             (ID (Right e), ID target) \<in> (rel_avoiding es ?V)\<^sup>*)
          = ((ID start, ID target) \<in> (rel_avoiding es visited)\<^sup>*)"
      proof
        assume "\<exists>e \<in> set es. ID (Left e) = ID start \<and> ID (Right e) \<notin> ?V \<and>
             (ID (Right e), ID target) \<in> (rel_avoiding es ?V)\<^sup>*"
        then obtain e where e: "e \<in> set es" "ID (Left e) = ID start" "ID (Right e) \<notin> ?V"
            "(ID (Right e), ID target) \<in> (rel_avoiding es ?V)\<^sup>*"
          by (elim bexE conjE)
        from e(1,2,3) have "(ID start, ID (Right e)) \<in> rel_avoiding es visited"
          using rel_ofI[OF e(1)] by (simp add: rel_avoiding_def)
        moreover have "(rel_avoiding es ?V)\<^sup>* \<subseteq> (rel_avoiding es visited)\<^sup>*"
          by (intro rtrancl_mono rel_avoiding_mono) auto
        with e(4) have "(ID (Right e), ID target) \<in> (rel_avoiding es visited)\<^sup>*" by blast
        ultimately show "(ID start, ID target) \<in> (rel_avoiding es visited)\<^sup>*"
          by (rule converse_rtrancl_into_rtrancl)
      next
        assume "(ID start, ID target) \<in> (rel_avoiding es visited)\<^sup>*"
        from path_leaves_start[OF this False] obtain r where
          r: "(ID start, r) \<in> rel_avoiding es ?V" "(r, ID target) \<in> (rel_avoiding es ?V)\<^sup>*"
          by (elim exE conjE)
        from r(1) obtain e where "e \<in> set es" "ID (Left e) = ID start" "ID (Right e) = r"
            "r \<notin> ?V"
          by (auto simp: rel_avoiding_def rel_of_def)
        with r(2) show "\<exists>e \<in> set es. ID (Left e) = ID start \<and> ID (Right e) \<notin> ?V \<and>
             (ID (Right e), ID target) \<in> (rel_avoiding es ?V)\<^sup>*"
          by auto
      qed
      from s nv have s': "\<not> fst ?r \<longrightarrow> snd ?r = visited"
        by auto
      from f have f': "fst ?r = ((ID start, ID target) \<in> (rel_avoiding es visited)\<^sup>*)"
        by (simp only: eq)
      from s' f' show ?thesis unfolding r by (intro conjI)
    qed
  qed
next
  case (2 es start target visited)
  show ?case by simp
next
  case (3 es edge rest start target visited)
  show ?case
  proof
    assume a: "set (edge # rest) \<subseteq> set es \<and> ID start \<in> visited"
    then have sub: "set rest \<subseteq> set es" and sv: "ID start \<in> visited" by simp_all
    show "(\<not> fst (detectCycle_range es (edge # rest) start target visited) \<longrightarrow>
        snd (detectCycle_range es (edge # rest) start target visited) = visited - {ID start}) \<and>
      (fst (detectCycle_range es (edge # rest) start target visited)
        = (\<exists>e \<in> set (edge # rest). ID (Left e) = ID start \<and> ID (Right e) \<notin> visited \<and>
             (ID (Right e), ID target) \<in> (rel_avoiding es visited)\<^sup>*))"
    proof (cases "ID (Left edge) = ID start \<and> ID (Right edge) \<notin> visited")
      case True
      obtain b y where c: "detectCycle es (Right edge) target visited = (b, y)"
        by (cases "detectCycle es (Right edge) target visited")
      from 3(1)[OF True] True c have y: "\<not> b \<longrightarrow> y = visited"
        and b: "b = ((ID (Right edge), ID target) \<in> (rel_avoiding es visited)\<^sup>*)"
        by simp_all
      show ?thesis
      proof (cases b)
        case True
        with c \<open>ID (Left edge) = ID start \<and> ID (Right edge) \<notin> visited\<close> b show ?thesis
          by auto
      next
        case False
        with y have yv: "y = visited" by simp
        from False c True have
          r: "detectCycle_range es (edge # rest) start target visited
            = detectCycle_range es rest start target visited"
          by (simp add: yv)
        from 3(2)[OF True c[symmetric]] False sub sv yv
        have "(\<not> fst (detectCycle_range es rest start target visited) \<longrightarrow>
            snd (detectCycle_range es rest start target visited) = visited - {ID start}) \<and>
          (fst (detectCycle_range es rest start target visited)
            = (\<exists>e \<in> set rest. ID (Left e) = ID start \<and> ID (Right e) \<notin> visited \<and>
                 (ID (Right e), ID target) \<in> (rel_avoiding es visited)\<^sup>*))"
          by simp
        with False b show ?thesis unfolding r by auto
      qed
    next
      case False
      then have r: "detectCycle_range es (edge # rest) start target visited
            = detectCycle_range es rest start target visited"
        by auto
      from 3(3)[OF False] sub sv
      have "(\<not> fst (detectCycle_range es rest start target visited) \<longrightarrow>
            snd (detectCycle_range es rest start target visited) = visited - {ID start}) \<and>
          (fst (detectCycle_range es rest start target visited)
            = (\<exists>e \<in> set rest. ID (Left e) = ID start \<and> ID (Right e) \<notin> visited \<and>
                 (ID (Right e), ID target) \<in> (rel_avoiding es visited)\<^sup>*))"
        by simp
      with False show ?thesis unfolding r by auto
    qed
  qed
qed

text \<open>
  So \<^verbatim>\<open>createsCycle(from, to)\<close> holds exactly when \<open>to\<close> can be reached from \<open>from\<close>
  along the existing edges, \<open>from = to\<close> included, and a single edge between registered
  nodes is rejected in exactly that case. The edge \<open>from \<rightarrow> to\<close> would close a cycle
  in the other case, when \<open>from\<close> can be reached from \<open>to\<close>.
\<close>

lemma createsCycle_iff_reachable:
  "createsCycle d fromNode toNode = ((ID fromNode, ID toNode) \<in> (edge_rel d)\<^sup>*)"
proof -
  have "rel_avoiding (Edges d) {} = rel_of (Edges d)"
    by (auto simp: rel_avoiding_def)
  with detectCycle_reaches(1)[of fromNode "{}" "Edges d" toNode] show ?thesis
    by (simp add: createsCycle_def edge_rel_rel_of)
qed

lemma AddEdge_rejects_iff_reachable:
  assumes "findNodeByID d fromID \<noteq> None" "findNodeByID d toID \<noteq> None"
  shows "AddEdge fromID [toID] d =
     (if (fromID, toID) \<in> (edge_rel d)\<^sup>* then (Inl (CycleRejected fromID toID), d)
      else (Inr [\<lparr>Left = the (findNodeByID d fromID), Right = the (findNodeByID d toID)\<rparr>],
            d\<lparr>Edges := Edges d @
              [\<lparr>Left = the (findNodeByID d fromID), Right = the (findNodeByID d toID)\<rparr>]\<rparr>))"
proof -
  from assms obtain f t where f: "findNodeByID d fromID = Some f" and t: "findNodeByID d toID = Some t"
    by auto
  then have "ID f = fromID" "ID t = toID"
    by (simp_all add: findNodeByID_def findNode_ID)
  with f t show ?thesis
    by (simp add: AddEdge_def createsCycle_iff_reachable Let_def)
qed

end
